theory Spec2Isabelle
  imports Complex_Main
begin

section \<open>Python values, errors and indexing\<close>

text \<open>
  The solver in \<^verbatim>\<open>wordle.py\<close> keeps everything it has learnt in a list of 26 rows
  (one per letter) of 7 cells: cells 0..4 hold the colour seen for the letter at that
  position, cell 5 (\<^verbatim>\<open>[-2]\<close>) the letter count and cell 6 (\<^verbatim>\<open>[-1]\<close>) the flag
  "the count is exact". A fresh array holds the integer 0 everywhere, so a cell is an
  integer, a string or a boolean. Every exception the code can raise is a value of
  \<open>error\<close>; strings are lists of 8-bit characters.
\<close>

datatype error = IndexError | TypeError | ZeroDivisionError | ValueError

datatype pyval = PInt int | PStr string | PBool bool

type_synonym info_array = "pyval list list"

definition rbind :: "error + 'a \<Rightarrow> ('a \<Rightarrow> error + 'b) \<Rightarrow> error + 'b" where
  "rbind m f = (case m of Inl e \<Rightarrow> Inl e | Inr v \<Rightarrow> f v)"

text \<open>Python subscripting: a negative index counts from the end, anything else raises.\<close>

definition py_norm :: "nat \<Rightarrow> int \<Rightarrow> error + nat" where
  "py_norm n i =
     (if 0 \<le> i \<and> i < int n then Inr (nat i)
      else if - int n \<le> i \<and> i < 0 then Inr (nat (int n + i))
      else Inl IndexError)"

definition py_get :: "'a list \<Rightarrow> int \<Rightarrow> error + 'a" where
  "py_get xs i = rbind (py_norm (length xs) i) (\<lambda>k. Inr (xs ! k))"

definition py_set :: "'a list \<Rightarrow> int \<Rightarrow> 'a \<Rightarrow> error + 'a list" where
  "py_set xs i v = rbind (py_norm (length xs) i) (\<lambda>k. Inr (xs[k := v]))"

text \<open>\<^verbatim>\<open>array[i][j]\<close> and \<^verbatim>\<open>array[i][j] = v\<close>; the rows are distinct objects.\<close>

definition cell_get :: "info_array \<Rightarrow> int \<Rightarrow> int \<Rightarrow> error + pyval" where
  "cell_get array i j = rbind (py_get array i) (\<lambda>row. py_get row j)"

definition cell_set :: "info_array \<Rightarrow> int \<Rightarrow> int \<Rightarrow> pyval \<Rightarrow> error + info_array" where
  "cell_set array i j v =
     rbind (py_get array i) (\<lambda>row.
     rbind (py_set row j v) (\<lambda>row'.
     py_set array i row'))"

text \<open>Truth value of a cell, and comparison of a cell with an integer.\<close>

fun truthy :: "pyval \<Rightarrow> bool" where
  "truthy (PInt n) = (n \<noteq> 0)"
| "truthy (PStr s) = (s \<noteq> [])"
| "truthy (PBool b) = b"

fun py_ne_int :: "pyval \<Rightarrow> int \<Rightarrow> bool" where
  "py_ne_int (PInt n) c = (n \<noteq> c)"
| "py_ne_int (PBool b) c = ((if b then 1 else 0) \<noteq> c)"
| "py_ne_int (PStr s) c = True"

fun py_gt_int :: "pyval \<Rightarrow> int \<Rightarrow> error + bool" where
  "py_gt_int (PInt n) c = Inr (n > c)"
| "py_gt_int (PBool b) c = Inr ((if b then 1 else 0) > c)"
| "py_gt_int (PStr s) c = Inl TypeError"

fun py_ge_int :: "pyval \<Rightarrow> int \<Rightarrow> error + bool" where
  "py_ge_int (PInt n) c = Inr (n \<ge> c)"
| "py_ge_int (PBool b) c = Inr ((if b then 1 else 0) \<ge> c)"
| "py_ge_int (PStr s) c = Inl TypeError"

section \<open>The constraint store\<close>

definition index_of_letter :: "char \<Rightarrow> int" where
  "index_of_letter letter = int (of_char letter) - int (of_char (CHR ''a''))"

text \<open>\<^verbatim>\<open>chr(j + ord('a'))\<close>, compared with the characters of an 8-bit string.\<close>

definition letter_in_word :: "nat \<Rightarrow> string \<Rightarrow> bool" where
  "letter_in_word j word = (j + 97 < 256 \<and> char_of (j + 97) \<in> set word)"

fun is_incorrect_position_loop :: "string \<Rightarrow> info_array \<Rightarrow> nat list \<Rightarrow> error + bool" where
  "is_incorrect_position_loop word array [] = Inr True"
| "is_incorrect_position_loop word array (j # js) =
     rbind (cell_get array (index_of_letter (word ! j)) (int j)) (\<lambda>c.
       if c = PStr ''b'' \<or> c = PStr ''y'' then Inr False
       else is_incorrect_position_loop word array js)"

definition is_incorrect_position :: "string \<Rightarrow> info_array \<Rightarrow> error + bool" where
  "is_incorrect_position word array = is_incorrect_position_loop word array [0..<length word]"

text \<open>The inner loop over the rows returns \<open>True\<close> when no row forbids the letter.\<close>

fun is_correct_position_rows :: "info_array \<Rightarrow> nat \<Rightarrow> int \<Rightarrow> nat list \<Rightarrow> error + bool" where
  "is_correct_position_rows array j i [] = Inr True"
| "is_correct_position_rows array j i (k # ks) =
     rbind (cell_get array (int k) (int j)) (\<lambda>c.
       if c = PStr ''g'' \<and> i \<noteq> int k then Inr False
       else is_correct_position_rows array j i ks)"

fun is_correct_position_loop :: "string \<Rightarrow> info_array \<Rightarrow> nat list \<Rightarrow> error + bool" where
  "is_correct_position_loop word array [] = Inr True"
| "is_correct_position_loop word array (j # js) =
     rbind (is_correct_position_rows array j (index_of_letter (word ! j)) [0..<length array])
       (\<lambda>ok. if ok then is_correct_position_loop word array js else Inr False)"

definition is_correct_position :: "string \<Rightarrow> info_array \<Rightarrow> error + bool" where
  "is_correct_position word array = is_correct_position_loop word array [0..<length word]"

fun letter_frequencies_loop1 :: "string \<Rightarrow> info_array \<Rightarrow> nat list \<Rightarrow> error + bool" where
  "letter_frequencies_loop1 word array [] = Inr True"
| "letter_frequencies_loop1 word array (j # js) =
     (let count = int (count_list word (word ! j));
          i = index_of_letter (word ! j)
      in rbind (cell_get array i (-2)) (\<lambda>letter_frequency.
         rbind (cell_get array i (-1)) (\<lambda>is_exactly_count.
           if truthy is_exactly_count then
             (if py_ne_int letter_frequency count then Inr False
              else letter_frequencies_loop1 word array js)
           else
             rbind (py_gt_int letter_frequency count) (\<lambda>gt.
               if gt then Inr False else letter_frequencies_loop1 word array js))))"

fun letter_frequencies_loop2 :: "string \<Rightarrow> info_array \<Rightarrow> nat list \<Rightarrow> error + bool" where
  "letter_frequencies_loop2 word array [] = Inr True"
| "letter_frequencies_loop2 word array (j # js) =
     rbind (cell_get array (int j) (-2)) (\<lambda>v.
     rbind (py_ge_int v 1) (\<lambda>ge.
       if ge \<and> \<not> letter_in_word j word then Inr False
       else letter_frequencies_loop2 word array js))"

definition is_correct_letter_frequencies :: "string \<Rightarrow> info_array \<Rightarrow> error + bool" where
  "is_correct_letter_frequencies word array =
     rbind (letter_frequencies_loop1 word array [0..<length word]) (\<lambda>ok.
       if ok then letter_frequencies_loop2 word array [0..<length array] else Inr False)"

text \<open>\<^verbatim>\<open>a and b and c\<close>: a later test runs only when the earlier ones returned True.\<close>

definition valid_guess :: "string \<Rightarrow> info_array \<Rightarrow> error + bool" where
  "valid_guess word array =
     rbind (is_incorrect_position word array) (\<lambda>a.
       if \<not> a then Inr False
       else rbind (is_correct_position word array) (\<lambda>b.
         if \<not> b then Inr False
         else is_correct_letter_frequencies word array))"

fun compute_letter_freq_loop ::
  "char \<Rightarrow> string \<Rightarrow> string \<Rightarrow> int \<Rightarrow> bool \<Rightarrow> nat list \<Rightarrow> error + int \<times> bool" where
  "compute_letter_freq_loop letter guess check count is_exact [] = Inr (count, is_exact)"
| "compute_letter_freq_loop letter guess check count is_exact (i # rest) =
     rbind (py_get check (int i)) (\<lambda>c.
       compute_letter_freq_loop letter guess check
         (if (c = CHR ''g'' \<or> c = CHR ''y'') \<and> guess ! i = letter then count + 1 else count)
         (if c = CHR ''b'' \<and> guess ! i = letter then True else is_exact)
         rest)"

definition compute_letter_freq :: "char \<Rightarrow> string \<Rightarrow> string \<Rightarrow> error + int \<times> bool" where
  "compute_letter_freq letter guess check =
     compute_letter_freq_loop letter guess check 0 False [0..<length guess]"

fun generate_array_loop ::
  "string \<Rightarrow> string \<Rightarrow> info_array \<Rightarrow> nat list \<Rightarrow> error + info_array" where
  "generate_array_loop guess check array [] = Inr array"
| "generate_array_loop guess check array (j # js) =
     (let i = index_of_letter (guess ! j) in
      rbind (compute_letter_freq (guess ! j) guess check) (\<lambda>letter_count.
      rbind (py_get check (int j)) (\<lambda>c.
      rbind (cell_set array i (int j) (PStr [c])) (\<lambda>array1.
      rbind (cell_set array1 i (-2) (PInt (fst letter_count))) (\<lambda>array2.
      rbind (cell_set array2 i (-1) (PBool (snd letter_count))) (\<lambda>array3.
      generate_array_loop guess check array3 js))))))"

definition generate_array :: "string \<Rightarrow> string \<Rightarrow> info_array \<Rightarrow> error + info_array" where
  "generate_array guess check array = generate_array_loop guess check array [0..<length guess]"

text \<open>\<^verbatim>\<open>[[0 for x in range(7)] for y in range(26)]\<close>\<close>

definition empty_array :: info_array where
  "empty_array = replicate 26 (replicate 7 (PInt 0))"

section \<open>The feedback engine\<close>

text \<open>
  First loop of \<^verbatim>\<open>compute_wordle_information\<close>: per letter, the number of occurrences in
  the answer and the number of positions where guess and answer agree.
\<close>

fun count_loop ::
  "string \<Rightarrow> string \<Rightarrow> int list \<Rightarrow> int list \<Rightarrow> nat list \<Rightarrow> error + int list \<times> int list" where
  "count_loop guess answer frequency_array green_frequency_array [] =
     Inr (frequency_array, green_frequency_array)"
| "count_loop guess answer frequency_array green_frequency_array (j # js) =
     (let i = index_of_letter (answer ! j) in
      rbind (py_get frequency_array i) (\<lambda>f.
      rbind (py_set frequency_array i (f + 1)) (\<lambda>frequency_array'.
      rbind (py_get guess (int j)) (\<lambda>g.
        if g = answer ! j then
          rbind (py_get green_frequency_array i) (\<lambda>gr.
          rbind (py_set green_frequency_array i (gr + 1)) (\<lambda>green_frequency_array'.
          count_loop guess answer frequency_array' green_frequency_array' js))
        else count_loop guess answer frequency_array' green_frequency_array js))))"

text \<open>
  The \<^verbatim>\<open>elif\<close> test of the second loop; \<^verbatim>\<open>and\<close> evaluates its right operand only
  when the left one holds.
\<close>

definition yellow_test :: "string \<Rightarrow> string \<Rightarrow> int list \<Rightarrow> int list \<Rightarrow> nat \<Rightarrow> error + bool" where
  "yellow_test guess answer frequency_array green_frequency_array j =
     (let count = int (count_list (take (j + 1) guess) (guess ! j));
          i = index_of_letter (guess ! j)
      in if guess ! j \<in> set answer then
           rbind (py_get frequency_array i) (\<lambda>f.
             if count \<le> f then
               rbind (py_get green_frequency_array i) (\<lambda>gr. Inr (f - count \<ge> gr))
             else Inr False)
         else Inr False)"

fun colour_loop ::
  "string \<Rightarrow> string \<Rightarrow> int list \<Rightarrow> int list \<Rightarrow> string \<Rightarrow> nat list \<Rightarrow> error + string" where
  "colour_loop guess answer frequency_array green_frequency_array sequence [] = Inr sequence"
| "colour_loop guess answer frequency_array green_frequency_array sequence (j # js) =
     (let i = index_of_letter (guess ! j) in
      rbind (py_get answer (int j)) (\<lambda>a.
        if guess ! j = a then
          rbind (py_get green_frequency_array i) (\<lambda>gr.
          rbind (py_set green_frequency_array i (gr - 1)) (\<lambda>green_frequency_array'.
          colour_loop guess answer frequency_array green_frequency_array' (sequence @ ''g'') js))
        else
          rbind (yellow_test guess answer frequency_array green_frequency_array j) (\<lambda>y.
            if y then
              colour_loop guess answer frequency_array green_frequency_array (sequence @ ''y'') js
            else
              colour_loop guess answer frequency_array green_frequency_array (sequence @ ''b'') js)))"

definition compute_wordle_information :: "string \<Rightarrow> string \<Rightarrow> error + string" where
  "compute_wordle_information guess answer =
     rbind (count_loop guess answer (replicate 26 0) (replicate 26 0) [0..<length answer])
       (\<lambda>arrays. colour_loop guess answer (fst arrays) (snd arrays) [] [0..<length guess])"

section \<open>The entropy ranker\<close>

text \<open>
  The dictionary of colour sequences keeps its insertion order, so it is an association
  list. Python divides, multiplies, adds and takes logarithms in binary floating point.
  That arithmetic is not modelled: its operations are the fields of a record that every
  function of the ranker takes as an argument, so each statement below holds for whatever
  the operations compute. The type \<open>'f\<close> holds the numbers that occur (the integer 0 the
  entropy starts from, and floats), ordered and compared as Python orders and compares
  them.
\<close>

record 'f float_arith =
  float_div :: "int \<Rightarrow> int \<Rightarrow> 'f"
  float_recip :: "'f \<Rightarrow> 'f"
  float_log2 :: "'f \<Rightarrow> 'f"
  float_mul :: "'f \<Rightarrow> 'f \<Rightarrow> 'f"
  float_add :: "'f \<Rightarrow> 'f \<Rightarrow> 'f"

text \<open>
  \<open>float_div a b\<close> is \<^verbatim>\<open>a/b\<close> on two integers, \<open>float_recip v\<close> is \<^verbatim>\<open>1/v\<close>,
  \<open>float_log2 x\<close> is \<^verbatim>\<open>math.log(x, 2)\<close>, \<open>float_mul\<close> is \<^verbatim>\<open>*\<close> and \<open>float_add\<close>
  is the \<^verbatim>\<open>+\<close> of \<^verbatim>\<open>+=\<close>. Division by zero and a logarithm of a number that is
  not positive raise, and those tests are part of the model.
\<close>

fun dict_incr :: "(string \<times> int) list \<Rightarrow> string \<Rightarrow> (string \<times> int) list" where
  "dict_incr [] key = [(key, 1)]"
| "dict_incr ((k, n) # d) key =
     (if k = key then (k, n + 1) # d else (k, n) # dict_incr d key)"

fun distribution_count_loop ::
  "string \<Rightarrow> (string \<times> int) list \<Rightarrow> string list \<Rightarrow> error + (string \<times> int) list" where
  "distribution_count_loop guess d [] = Inr d"
| "distribution_count_loop guess d (word # ws) =
     rbind (compute_wordle_information guess word) (\<lambda>color_sequence.
       distribution_count_loop guess (dict_incr d color_sequence) ws)"

fun distribution_divide_loop ::
  "'f float_arith \<Rightarrow> (string \<times> int) list \<Rightarrow> nat \<Rightarrow> error + (string \<times> 'f) list" where
  "distribution_divide_loop arith [] n = Inr []"
| "distribution_divide_loop arith ((k, c) # d) n =
     (if n = 0 then Inl ZeroDivisionError
      else rbind (distribution_divide_loop arith d n) (\<lambda>r.
             Inr ((k, float_div arith c (int n)) # r)))"

definition compute_probability_distribution ::
  "'f float_arith \<Rightarrow> string \<Rightarrow> string list \<Rightarrow> error + (string \<times> 'f) list" where
  "compute_probability_distribution arith guess word_list =
     rbind (distribution_count_loop guess [] word_list) (\<lambda>d.
       distribution_divide_loop arith d (length word_list))"

fun compute_entropy_loop ::
  "('f::{zero,linorder}) float_arith \<Rightarrow> (string \<times> 'f) list \<Rightarrow> 'f \<Rightarrow> error + 'f" where
  "compute_entropy_loop arith [] entropy = Inr entropy"
| "compute_entropy_loop arith ((key, val) # d) entropy =
     (if val = 0 then Inl ZeroDivisionError
      else if float_recip arith val \<le> 0 then Inl ValueError
      else compute_entropy_loop arith d
             (float_add arith entropy
                (float_mul arith val (float_log2 arith (float_recip arith val)))))"

definition compute_entropy ::
  "('f::{zero,linorder}) float_arith \<Rightarrow> string \<Rightarrow> string list \<Rightarrow> error + 'f" where
  "compute_entropy arith guess word_list =
     rbind (compute_probability_distribution arith guess word_list) (\<lambda>probability_dictionary.
       compute_entropy_loop arith probability_dictionary 0)"

text \<open>
  \<^verbatim>\<open>sorted(entropy_list, key=lambda x: x[1], reverse=True)\<close> is a stable sort in
  descending order of the key: an element goes in front of the elements after it whose
  key is not larger.
\<close>

fun insort_desc :: "('a \<Rightarrow> 'k::linorder) \<Rightarrow> 'a \<Rightarrow> 'a list \<Rightarrow> 'a list" where
  "insort_desc key x [] = [x]"
| "insort_desc key x (y # ys) =
     (if key y \<le> key x then x # y # ys else y # insort_desc key x ys)"

fun sorted_reverse :: "('a \<Rightarrow> 'k::linorder) \<Rightarrow> 'a list \<Rightarrow> 'a list" where
  "sorted_reverse key [] = []"
| "sorted_reverse key (x # xs) = insort_desc key x (sorted_reverse key xs)"

fun entropy_list_loop ::
  "('f::{zero,linorder}) float_arith \<Rightarrow> string list \<Rightarrow> string list
     \<Rightarrow> error + (string \<times> 'f) list" where
  "entropy_list_loop arith [] possible_guesses = Inr []"
| "entropy_list_loop arith (word # ws) possible_guesses =
     rbind (compute_entropy arith word possible_guesses) (\<lambda>entropy.
     rbind (entropy_list_loop arith ws possible_guesses) (\<lambda>rest.
       Inr ((word, entropy) # rest)))"

definition generate_entropy_list ::
  "('f::{zero,linorder}) float_arith \<Rightarrow> string list \<Rightarrow> string list
     \<Rightarrow> error + (string \<times> 'f) list" where
  "generate_entropy_list arith word_list possible_guesses =
     rbind (entropy_list_loop arith word_list possible_guesses) (\<lambda>entropy_list.
       Inr (sorted_reverse snd entropy_list))"

section \<open>Self-play\<close>

text \<open>
  \<^verbatim>\<open>computer_play_wordle\<close> reads the word list from a file; here the list of lines is an
  argument. The loop body runs with the counter already incremented and the counter
  never passes 6.
\<close>

fun possible_guesses_loop :: "string list \<Rightarrow> info_array \<Rightarrow> error + string list" where
  "possible_guesses_loop [] guess_array = Inr []"
| "possible_guesses_loop (w # ws) guess_array =
     rbind (valid_guess w guess_array) (\<lambda>v.
     rbind (possible_guesses_loop ws guess_array) (\<lambda>rest.
       Inr (if v then w # rest else rest)))"

definition tie_break_word :: "(string \<times> 'f) list \<Rightarrow> string \<Rightarrow> string \<Rightarrow> string" where
  "tie_break_word entropy_list guess guess_suggestion =
     foldl (\<lambda>s entry.
              if fst entry = guess \<and> snd (hd entropy_list) = snd entry then guess else s)
       guess_suggestion entropy_list"

definition tie_break :: "(string \<times> 'f) list \<Rightarrow> string list \<Rightarrow> string \<Rightarrow> string" where
  "tie_break entropy_list possible_guesses guess_suggestion =
     foldl (\<lambda>s guess. tie_break_word entropy_list guess s) guess_suggestion possible_guesses"

function play_loop ::
  "('f::{zero,linorder}) float_arith \<Rightarrow> string list \<Rightarrow> string \<Rightarrow> info_array \<Rightarrow> string \<Rightarrow> nat
     \<Rightarrow> error + nat" where
  "play_loop arith lines answer guess_array guess_suggestion loop_count =
     rbind (compute_wordle_information guess_suggestion answer) (\<lambda>check.
       if check = ''ggggg'' then Inr (loop_count + 1)
       else
         rbind (generate_array guess_suggestion check guess_array) (\<lambda>guess_array'.
         rbind (possible_guesses_loop lines guess_array') (\<lambda>possible_guesses.
         rbind (generate_entropy_list arith lines possible_guesses) (\<lambda>entropy_list.
         rbind (py_get entropy_list 0) (\<lambda>top.
           if loop_count + 1 \<ge> 6 then Inr (loop_count + 1 + 1)
           else play_loop arith lines answer guess_array'
                  (tie_break entropy_list possible_guesses (fst top)) (loop_count + 1))))))"
  by pat_completeness auto
termination
  by (relation "measure (\<lambda>(arith, lines, answer, guess_array, guess_suggestion, loop_count).
        6 - loop_count)") auto

definition computer_play_wordle ::
  "('f::{zero,linorder}) float_arith \<Rightarrow> string list \<Rightarrow> string \<Rightarrow> error + nat" where
  "computer_play_wordle arith lines answer = play_loop arith lines answer empty_array ''tares'' 0"

section \<open>Well-formed inputs\<close>

text \<open>
  The game's words have five lowercase letters and the array has 26 rows of 7 cells.
\<close>

definition lowercase :: "char \<Rightarrow> bool" where
  "lowercase c = (97 \<le> (of_char c :: nat) \<and> (of_char c :: nat) \<le> 122)"

definition word_ok :: "string \<Rightarrow> bool" where
  "word_ok w = (length w = 5 \<and> list_all lowercase w)"

definition array_ok :: "info_array \<Rightarrow> bool" where
  "array_ok array = (length array = 26 \<and> list_all (\<lambda>row. length row = 7) array)"

section \<open>Vocabulary of the statements\<close>

text \<open>
  The row of a lowercase letter as a natural number, and the letter of a row.
\<close>

definition lidx :: "char \<Rightarrow> nat" where
  "lidx c = of_char c - 97"

definition row_letter :: "nat \<Rightarrow> char" where
  "row_letter k = char_of (k + 97)"

text \<open>
  What one guess shows about a letter: the number of its positions marked green or yellow,
  and whether one of its positions is marked black. These are the two values
  \<^verbatim>\<open>compute_letter_freq\<close> returns when the check is long enough.
\<close>

definition marked_count :: "char \<Rightarrow> string \<Rightarrow> string \<Rightarrow> int" where
  "marked_count letter guess check =
     int (length (filter (\<lambda>i. (check ! i = CHR ''g'' \<or> check ! i = CHR ''y'') \<and> guess ! i = letter)
                    [0..<length guess]))"

definition marked_black :: "char \<Rightarrow> string \<Rightarrow> string \<Rightarrow> bool" where
  "marked_black letter guess check =
     list_ex (\<lambda>i. check ! i = CHR ''b'' \<and> guess ! i = letter) [0..<length guess]"

text \<open>
  The two tests of \<^verbatim>\<open>is_correct_letter_frequencies\<close> on the cells of one row: the
  first loop's test passes, and the second loop's test passes.
\<close>

definition frequency_ok :: "pyval \<Rightarrow> pyval \<Rightarrow> int \<Rightarrow> bool" where
  "frequency_ok letter_frequency is_exactly_count count =
     (if truthy is_exactly_count then \<not> py_ne_int letter_frequency count
      else py_gt_int letter_frequency count = Inr False)"

definition presence_ok :: "pyval \<Rightarrow> bool \<Rightarrow> bool" where
  "presence_ok letter_frequency present =
     (py_ge_int letter_frequency 1 = Inr False \<or> py_ge_int letter_frequency 1 = Inr True \<and> present)"

text \<open>
  The feedback rule as the specification words it, to be compared with the code: among
  the first \<open>m\<close> positions of the guess, the positions
  holding a letter that agree with the answer (green) and those that do not; a position is
  green when guess and answer agree there, yellow when it is not green and the non-green
  occurrences of its letter up to and including it do not exceed the answer's count of the
  letter minus the letter's green count, and black otherwise.
\<close>

definition greens_before :: "string \<Rightarrow> string \<Rightarrow> char \<Rightarrow> nat \<Rightarrow> nat" where
  "greens_before guess answer letter m =
     length (filter (\<lambda>k. guess ! k = letter \<and> guess ! k = answer ! k) [0..<m])"

definition nongreens_before :: "string \<Rightarrow> string \<Rightarrow> char \<Rightarrow> nat \<Rightarrow> nat" where
  "nongreens_before guess answer letter m =
     length (filter (\<lambda>k. guess ! k = letter \<and> guess ! k \<noteq> answer ! k) [0..<m])"

definition feedback_colour :: "string \<Rightarrow> string \<Rightarrow> nat \<Rightarrow> char" where
  "feedback_colour guess answer j =
     (if guess ! j = answer ! j then CHR ''g''
      else if int (nongreens_before guess answer (guess ! j) (Suc j))
                \<le> int (count_list answer (guess ! j))
                  - int (greens_before guess answer (guess ! j) (length guess))
           then CHR ''y''
      else CHR ''b'')"

definition lower_word :: "string \<Rightarrow> bool" where
  "lower_word w = list_all lowercase w"

text \<open>
  Rounds of play against a fixed answer: each guess is scored by
  \<^verbatim>\<open>compute_wordle_information\<close> and the score goes into the array. An array is
  consistent with an answer when every stored colour and count is true of the answer.
\<close>

fun feedback_rounds :: "string \<Rightarrow> string list \<Rightarrow> info_array \<Rightarrow> error + info_array" where
  "feedback_rounds answer [] array = Inr array"
| "feedback_rounds answer (guess # guesses) array =
     rbind (compute_wordle_information guess answer) (\<lambda>check.
     rbind (generate_array guess check array) (\<lambda>array'.
       feedback_rounds answer guesses array'))"

definition consistent :: "string \<Rightarrow> info_array \<Rightarrow> bool" where
  "consistent answer array =
     (array_ok array \<and>
      (\<forall>k<26. \<forall>p<5.
         (array ! k ! p = PStr ''g'' \<longrightarrow> lidx (answer ! p) = k) \<and>
         (array ! k ! p = PStr ''b'' \<or> array ! k ! p = PStr ''y'' \<longrightarrow> lidx (answer ! p) \<noteq> k)) \<and>
      (\<forall>k<26. \<exists>c. array ! k ! 5 = PInt c \<and> c \<le> int (count_list answer (row_letter k)) \<and>
         (truthy (array ! k ! 6) \<longrightarrow> c = int (count_list answer (row_letter k)))))"

text \<open>
  A sequence of \<^verbatim>\<open>generate_array\<close> calls on the same array, and the two count cells
  of a letter, read as the code reads them.
\<close>

fun generate_arrays :: "(string \<times> string) list \<Rightarrow> info_array \<Rightarrow> error + info_array" where
  "generate_arrays [] array = Inr array"
| "generate_arrays ((guess, check) # calls) array =
     rbind (generate_array guess check array) (\<lambda>array'. generate_arrays calls array')"

definition min_count :: "info_array \<Rightarrow> char \<Rightarrow> error + pyval" where
  "min_count array letter = cell_get array (index_of_letter letter) (-2)"

definition exact_count :: "info_array \<Rightarrow> char \<Rightarrow> error + pyval" where
  "exact_count array letter = cell_get array (index_of_letter letter) (-1)"

definition min_count_after :: "(string \<times> string) list \<Rightarrow> char \<Rightarrow> error + pyval" where
  "min_count_after calls letter =
     rbind (generate_arrays calls empty_array) (\<lambda>array. min_count array letter)"

definition exact_count_after :: "(string \<times> string) list \<Rightarrow> char \<Rightarrow> error + pyval" where
  "exact_count_after calls letter =
     rbind (generate_arrays calls empty_array) (\<lambda>array. exact_count array letter)"

text \<open>
  The verdict of \<^verbatim>\<open>valid_guess\<close> on a word after a sequence of updates of the all-zero
  array.
\<close>

definition valid_after :: "(string \<times> string) list \<Rightarrow> string \<Rightarrow> error + bool" where
  "valid_after calls word = rbind (generate_arrays calls empty_array) (valid_guess word)"

text \<open>
  An update keeps what the array stores for the letters of the guess when, at each position
  of the guess, a stored green is overwritten with green, a stored black or yellow with
  black or yellow, and the new count and flag of the letter are at least as strict as the
  stored ones: with the stored flag set, the new flag is set and the count is the same;
  with the stored flag not set, the new count is not smaller.
\<close>

fun count_kept :: "pyval \<Rightarrow> pyval \<Rightarrow> int \<Rightarrow> bool \<Rightarrow> bool" where
  "count_kept (PInt c) flag count is_exact =
     (if truthy flag then is_exact \<and> count = c else c \<le> count)"
| "count_kept (PStr s) flag count is_exact = False"
| "count_kept (PBool b) flag count is_exact = False"

definition keeps_constraints :: "string \<Rightarrow> string \<Rightarrow> info_array \<Rightarrow> bool" where
  "keeps_constraints guess check array =
     list_all (\<lambda>j.
        (array ! lidx (guess ! j) ! j \<noteq> PStr ''g'' \<or> check ! j = CHR ''g'') \<and>
        ((array ! lidx (guess ! j) ! j \<noteq> PStr ''b'' \<and> array ! lidx (guess ! j) ! j \<noteq> PStr ''y'')
           \<or> check ! j = CHR ''b'' \<or> check ! j = CHR ''y'') \<and>
        count_kept (array ! lidx (guess ! j) ! 5) (array ! lidx (guess ! j) ! 6)
          (marked_count (guess ! j) guess check) (marked_black (guess ! j) guess check))
       [0..<5]"

text \<open>
  One pass through the body of the loop of \<^verbatim>\<open>computer_play_wordle\<close> after a check that
  is not all green: the new array and the next suggestion. The state at the head of the
  loop after \<open>t\<close> turns, and the feedback of the guess of turn \<open>t + 1\<close>.
\<close>

definition next_turn ::
  "('f::{zero,linorder}) float_arith \<Rightarrow> string list \<Rightarrow> info_array \<Rightarrow> string \<Rightarrow> string
     \<Rightarrow> error + info_array \<times> string" where
  "next_turn arith lines guess_array guess check =
     rbind (generate_array guess check guess_array) (\<lambda>guess_array'.
     rbind (possible_guesses_loop lines guess_array') (\<lambda>possible_guesses.
     rbind (generate_entropy_list arith lines possible_guesses) (\<lambda>entropy_list.
     rbind (py_get entropy_list 0) (\<lambda>top.
       Inr (guess_array', tie_break entropy_list possible_guesses (fst top))))))"

fun turn_state ::
  "('f::{zero,linorder}) float_arith \<Rightarrow> string list \<Rightarrow> string \<Rightarrow> nat
     \<Rightarrow> error + info_array \<times> string" where
  "turn_state arith lines answer 0 = Inr (empty_array, ''tares'')"
| "turn_state arith lines answer (Suc t) =
     rbind (turn_state arith lines answer t) (\<lambda>state.
     rbind (compute_wordle_information (snd state) answer) (\<lambda>check.
       next_turn arith lines (fst state) (snd state) check))"

definition feedback_at ::
  "('f::{zero,linorder}) float_arith \<Rightarrow> string list \<Rightarrow> string \<Rightarrow> nat \<Rightarrow> error + string" where
  "feedback_at arith lines answer t =
     rbind (turn_state arith lines answer t)
       (\<lambda>state. compute_wordle_information (snd state) answer)"

text \<open>
  What the statements about rankings ask of the arithmetic: for counts \<open>1 \<le> c \<le> n\<close> with
  \<open>n\<close> up to the number \<open>N\<close> of answers, the probability \<^verbatim>\<open>c/n\<close> and its reciprocal are
  positive, so that neither the division by zero nor the domain error of the logarithm is
  reached. Python's floats do this for every list of words that fits in memory.
\<close>

definition arith_ok :: "('f::{zero,linorder}) float_arith \<Rightarrow> nat \<Rightarrow> bool" where
  "arith_ok arith N =
     (\<forall>c n. 1 \<le> c \<and> c \<le> n \<and> n \<le> int N \<longrightarrow>
        0 < float_div arith c n \<and> 0 < float_recip arith (float_div arith c n))"

text \<open>
  Exact arithmetic on the real numbers is one instance of the operations. It is the
  example where a statement needs a concrete arithmetic, and it is not Python's.
\<close>

definition real_arith :: "real float_arith" where
  "real_arith =
     \<lparr>float_div = (\<lambda>a b. real_of_int a / real_of_int b),
      float_recip = (\<lambda>v. 1 / v),
      float_log2 = (\<lambda>x. log 2 x),
      float_mul = (\<lambda>a b. a * b),
      float_add = (\<lambda>a b. a + b)\<rparr>"

section \<open>Indexing inside a well-formed array\<close>

lemma rbind_Inr [simp]: "rbind (Inr v) f = f v"
  by (simp add: rbind_def)

lemma rbind_Inl [simp]: "rbind (Inl e) f = Inl e"
  by (simp add: rbind_def)

lemma rbind_eq_Inr_iff: "rbind m f = Inr r \<longleftrightarrow> (\<exists>v. m = Inr v \<and> f v = Inr r)"
  by (cases m) simp_all

lemma py_norm_nat: "i < n \<Longrightarrow> py_norm n (int i) = Inr i"
  by (simp add: py_norm_def)

lemma py_get_nat: "i < length xs \<Longrightarrow> py_get xs (int i) = Inr (xs ! i)"
  by (simp add: py_get_def py_norm_nat)

lemma py_set_nat: "i < length xs \<Longrightarrow> py_set xs (int i) v = Inr (xs[i := v])"
  by (simp add: py_set_def py_norm_nat)

lemma py_get_nat_out: "\<not> i < length xs \<Longrightarrow> py_get xs (int i) = Inl IndexError"
  by (simp add: py_get_def py_norm_def)

lemma py_get_last2: "length xs = 7 \<Longrightarrow> py_get xs (-2) = Inr (xs ! 5)"
  by (simp add: py_get_def py_norm_def)

lemma py_get_last1: "length xs = 7 \<Longrightarrow> py_get xs (-1) = Inr (xs ! 6)"
  by (simp add: py_get_def py_norm_def)

lemma py_set_last2: "length xs = 7 \<Longrightarrow> py_set xs (-2) v = Inr (xs[5 := v])"
  by (simp add: py_set_def py_norm_def)

lemma py_set_last1: "length xs = 7 \<Longrightarrow> py_set xs (-1) v = Inr (xs[6 := v])"
  by (simp add: py_set_def py_norm_def)

lemma row_letter_lidx: "lowercase c \<Longrightarrow> row_letter (lidx c) = c"
proof -
  assume "lowercase c"
  then have "lidx c + 97 = of_char c"
    unfolding lowercase_def lidx_def by linarith
  then show ?thesis by (simp add: row_letter_def)
qed

lemma lidx_row_letter: "k < 26 \<Longrightarrow> lidx (row_letter k) = k"
  by (simp add: row_letter_def lidx_def)

lemma lowercase_row_letter: "k < 26 \<Longrightarrow> lowercase (row_letter k)"
  by (simp add: row_letter_def lowercase_def)

lemma word_ok_nth: "word_ok w \<Longrightarrow> j < 5 \<Longrightarrow> lowercase (w ! j)"
  by (simp add: word_ok_def list_all_length)

lemma word_ok_len: "word_ok w \<Longrightarrow> length w = 5"
  by (simp add: word_ok_def)

lemma index_of_letter_lower: "lowercase c \<Longrightarrow> index_of_letter c = int (lidx c)"
  by (simp add: index_of_letter_def lowercase_def lidx_def)

lemma lidx_less: "lowercase c \<Longrightarrow> lidx c < 26"
  unfolding lowercase_def lidx_def by linarith

lemma lidx_inj: "lowercase c \<Longrightarrow> lowercase d \<Longrightarrow> lidx c = lidx d \<Longrightarrow> c = d"
proof -
  assume "lowercase c" "lowercase d" "lidx c = lidx d"
  then have "(of_char c :: nat) = of_char d"
    unfolding lowercase_def lidx_def by linarith
  then show "c = d" by simp
qed

lemma array_ok_row: "array_ok a \<Longrightarrow> k < 26 \<Longrightarrow> length (a ! k) = 7"
  by (simp add: array_ok_def list_all_length)

lemma array_ok_len: "array_ok a \<Longrightarrow> length a = 26"
  by (simp add: array_ok_def)

lemma cell_get_ok: "array_ok a \<Longrightarrow> k < 26 \<Longrightarrow> p < 7 \<Longrightarrow> cell_get a (int k) (int p) = Inr (a ! k ! p)"
  by (simp add: cell_get_def py_get_nat array_ok_len array_ok_row)

lemma cell_get_ok2: "array_ok a \<Longrightarrow> k < 26 \<Longrightarrow> cell_get a (int k) (-2) = Inr (a ! k ! 5)"
  by (simp add: cell_get_def py_get_nat array_ok_len array_ok_row py_get_last2)

lemma cell_get_ok1: "array_ok a \<Longrightarrow> k < 26 \<Longrightarrow> cell_get a (int k) (-1) = Inr (a ! k ! 6)"
  by (simp add: cell_get_def py_get_nat array_ok_len array_ok_row py_get_last1)

lemma array_ok_update: "array_ok a \<Longrightarrow> length r = 7 \<Longrightarrow> array_ok (a[k := r])"
  by (cases "k < length a") (auto simp: array_ok_def list_all_length nth_list_update)

lemma cell_set_ok: "array_ok a \<Longrightarrow> k < 26 \<Longrightarrow> p < 7 \<Longrightarrow> cell_set a (int k) (int p) v = Inr (a[k := (a ! k)[p := v]])"
  by (simp add: cell_set_def py_get_nat py_set_nat array_ok_len array_ok_row)

lemma cell_set_ok2: "array_ok a \<Longrightarrow> k < 26 \<Longrightarrow> cell_set a (int k) (-2) v = Inr (a[k := (a ! k)[5 := v]])"
  by (simp add: cell_set_def py_get_nat py_set_nat array_ok_len array_ok_row py_set_last2)

lemma cell_set_ok1: "array_ok a \<Longrightarrow> k < 26 \<Longrightarrow> cell_set a (int k) (-1) v = Inr (a[k := (a ! k)[6 := v]])"
  by (simp add: cell_set_def py_get_nat py_set_nat array_ok_len array_ok_row py_set_last1)

lemma array_ok_empty: "array_ok empty_array"
  by (simp add: array_ok_def empty_array_def list_all_length)

lemma ball_below: "(\<forall>j\<in>{0..<n::nat}. P j) = (\<forall>j<n. P j)"
  by auto

lemma bex_below: "(\<exists>j\<in>{0..<n::nat}. P j) = (\<exists>j<n. P j)"
  by auto

section \<open>What \<^verbatim>\<open>generate_array\<close> writes\<close>

lemma compute_letter_freq_loop_closed:
  "\<forall>i\<in>set js. i < length check \<Longrightarrow>
   compute_letter_freq_loop letter guess check count is_exact js =
     Inr (count + int (length (filter (\<lambda>i. (check ! i = CHR ''g'' \<or> check ! i = CHR ''y'') \<and> guess ! i = letter) js)),
          is_exact \<or> list_ex (\<lambda>i. check ! i = CHR ''b'' \<and> guess ! i = letter) js)"
proof (induction js arbitrary: count is_exact)
  case Nil
  show ?case by simp
next
  case (Cons j js)
  then have j: "py_get check (int j) = Inr (check ! j)" and rest: "\<forall>i\<in>set js. i < length check"
    by (simp_all add: py_get_nat)
  show ?case
    by (auto simp: j Cons.IH [OF rest])
qed

lemma compute_letter_freq_closed:
  "length guess \<le> length check \<Longrightarrow>
   compute_letter_freq letter guess check =
     Inr (marked_count letter guess check, marked_black letter guess check)"
  by (simp add: compute_letter_freq_def marked_count_def marked_black_def
      compute_letter_freq_loop_closed)

lemma generate_array_step:
  assumes a: "array_ok array" and g: "word_ok guess" and c: "5 \<le> length check" and j: "j < 5"
  shows "generate_array_loop guess check array (j # js) =
     generate_array_loop guess check
       (array[lidx (guess ! j) :=
          (array ! lidx (guess ! j))[j := PStr [check ! j],
             5 := PInt (marked_count (guess ! j) guess check),
             6 := PBool (marked_black (guess ! j) guess check)]]) js"
proof -
  let ?k = "lidx (guess ! j)"
  have low: "lowercase (guess ! j)" using g j by (rule word_ok_nth)
  have k: "?k < 26" using low by (rule lidx_less)
  have i: "index_of_letter (guess ! j) = int ?k" using low by (rule index_of_letter_lower)
  have f: "compute_letter_freq (guess ! j) guess check =
      Inr (marked_count (guess ! j) guess check, marked_black (guess ! j) guess check)"
    using g c by (simp add: compute_letter_freq_closed word_ok_len)
  have cj: "py_get check (int j) = Inr (check ! j)" using c j by (simp add: py_get_nat)
  let ?a1 = "array[?k := (array ! ?k)[j := PStr [check ! j]]]"
  have s1: "cell_set array (int ?k) (int j) (PStr [check ! j]) = Inr ?a1"
    using a k j by (simp add: cell_set_ok)
  have ok1: "array_ok ?a1" using a k by (simp add: array_ok_update array_ok_row)
  let ?a2 = "?a1[?k := (?a1 ! ?k)[5 := PInt (marked_count (guess ! j) guess check)]]"
  have s2: "cell_set ?a1 (int ?k) (-2) (PInt (marked_count (guess ! j) guess check)) = Inr ?a2"
    using ok1 k by (rule cell_set_ok2)
  have ok2: "array_ok ?a2"
  proof (rule array_ok_update)
    show "array_ok ?a1" by (rule ok1)
    show "length ((?a1 ! ?k)[5 := PInt (marked_count (guess ! j) guess check)]) = 7"
      using array_ok_row [OF ok1 k] by simp
  qed
  let ?a3 = "?a2[?k := (?a2 ! ?k)[6 := PBool (marked_black (guess ! j) guess check)]]"
  have s3: "cell_set ?a2 (int ?k) (-1) (PBool (marked_black (guess ! j) guess check)) = Inr ?a3"
    using ok2 k by (rule cell_set_ok1)
  have kl: "?k < length array" using a k by (simp add: array_ok_len)
  have e: "?a3 = array[?k := (array ! ?k)[j := PStr [check ! j],
             5 := PInt (marked_count (guess ! j) guess check),
             6 := PBool (marked_black (guess ! j) guess check)]]"
    using kl by simp
  show ?thesis
    unfolding generate_array_loop.simps Let_def i f cj rbind_Inr fst_conv snd_conv s1 s2 s3 e ..
qed

lemma generate_array_loop_cells:
  assumes g: "word_ok guess" and c: "5 \<le> length check"
  shows "array_ok array \<Longrightarrow> \<forall>j\<in>set js. j < 5 \<Longrightarrow>
    \<exists>array'. generate_array_loop guess check array js = Inr array' \<and> array_ok array' \<and>
      (\<forall>k<26. \<forall>p<5. array' ! k ! p =
         (if p \<in> set js \<and> lidx (guess ! p) = k then PStr [check ! p] else array ! k ! p)) \<and>
      (\<forall>k<26. array' ! k ! 5 =
         (if \<exists>j\<in>set js. lidx (guess ! j) = k
          then PInt (marked_count (row_letter k) guess check) else array ! k ! 5)) \<and>
      (\<forall>k<26. array' ! k ! 6 =
         (if \<exists>j\<in>set js. lidx (guess ! j) = k
          then PBool (marked_black (row_letter k) guess check) else array ! k ! 6))"
proof (induction js arbitrary: array)
  case Nil
  then show ?case by simp
next
  case (Cons j js)
  let ?k = "lidx (guess ! j)"
  let ?r = "(array ! ?k)[j := PStr [check ! j],
             5 := PInt (marked_count (guess ! j) guess check),
             6 := PBool (marked_black (guess ! j) guess check)]"
  let ?a = "array[?k := ?r]"
  have j: "j < 5" and js: "\<forall>j\<in>set js. j < 5" using Cons.prems(2) by simp_all
  have low: "lowercase (guess ! j)" using g j by (rule word_ok_nth)
  have k: "?k < 26" using low by (rule lidx_less)
  have kl: "?k < length array" using Cons.prems(1) k by (simp add: array_ok_len)
  have rl: "length (array ! ?k) = 7" using Cons.prems(1) k by (rule array_ok_row)
  have letter: "row_letter ?k = guess ! j" using low by (rule row_letter_lidx)
  have step: "generate_array_loop guess check array (j # js) = generate_array_loop guess check ?a js"
    using Cons.prems(1) g c j by (rule generate_array_step)
  have ok: "array_ok ?a" using Cons.prems(1) rl by (simp add: array_ok_update)
  have colour: "?a ! k ! p = (if k = ?k \<and> p = j then PStr [check ! j] else array ! k ! p)"
    if "k < 26" "p < 5" for k p
    using that kl rl j by (simp add: nth_list_update)
  have five: "?a ! k ! 5 = (if k = ?k then PInt (marked_count (row_letter k) guess check) else array ! k ! 5)"
    if "k < 26" for k
    using that kl rl j letter by (simp add: nth_list_update)
  have six: "?a ! k ! 6 = (if k = ?k then PBool (marked_black (row_letter k) guess check) else array ! k ! 6)"
    if "k < 26" for k
    using that kl rl j letter by (simp add: nth_list_update)
  from Cons.IH [OF ok js] obtain array' where
    r: "generate_array_loop guess check ?a js = Inr array'" and ok': "array_ok array'" and
    c1: "\<forall>k<26. \<forall>p<5. array' ! k ! p =
         (if p \<in> set js \<and> lidx (guess ! p) = k then PStr [check ! p] else ?a ! k ! p)" and
    c5: "\<forall>k<26. array' ! k ! 5 =
         (if \<exists>j\<in>set js. lidx (guess ! j) = k
          then PInt (marked_count (row_letter k) guess check) else ?a ! k ! 5)" and
    c6: "\<forall>k<26. array' ! k ! 6 =
         (if \<exists>j\<in>set js. lidx (guess ! j) = k
          then PBool (marked_black (row_letter k) guess check) else ?a ! k ! 6)"
    by blast
  have "\<forall>k<26. \<forall>p<5. array' ! k ! p =
         (if p \<in> set (j # js) \<and> lidx (guess ! p) = k then PStr [check ! p] else array ! k ! p)"
    using c1 colour by auto
  moreover have "\<forall>k<26. array' ! k ! 5 =
         (if \<exists>j\<in>set (j # js). lidx (guess ! j) = k
          then PInt (marked_count (row_letter k) guess check) else array ! k ! 5)"
    using c5 five by auto
  moreover have "\<forall>k<26. array' ! k ! 6 =
         (if \<exists>j\<in>set (j # js). lidx (guess ! j) = k
          then PBool (marked_black (row_letter k) guess check) else array ! k ! 6)"
    using c6 six by auto
  ultimately show ?case using step r ok' by simp
qed

lemma generate_array_cells:
  assumes "word_ok guess" and "5 \<le> length check" and "array_ok array"
  shows "\<exists>array'. generate_array guess check array = Inr array' \<and> array_ok array' \<and>
      (\<forall>k<26. \<forall>p<5. array' ! k ! p =
         (if lidx (guess ! p) = k then PStr [check ! p] else array ! k ! p)) \<and>
      (\<forall>k<26. array' ! k ! 5 =
         (if \<exists>j<5. lidx (guess ! j) = k
          then PInt (marked_count (row_letter k) guess check) else array ! k ! 5)) \<and>
      (\<forall>k<26. array' ! k ! 6 =
         (if \<exists>j<5. lidx (guess ! j) = k
          then PBool (marked_black (row_letter k) guess check) else array ! k ! 6))"
proof -
  have "\<forall>j\<in>set [0..<5]. j < 5" by simp
  from generate_array_loop_cells [OF assms(1,2,3) this] obtain array' where
    r: "generate_array_loop guess check array [0..<5] = Inr array'" and ok': "array_ok array'" and
    c1: "\<forall>k<26. \<forall>p<5. array' ! k ! p =
         (if p \<in> set [0..<5] \<and> lidx (guess ! p) = k then PStr [check ! p] else array ! k ! p)" and
    c5: "\<forall>k<26. array' ! k ! 5 =
         (if \<exists>j\<in>set [0..<5]. lidx (guess ! j) = k
          then PInt (marked_count (row_letter k) guess check) else array ! k ! 5)" and
    c6: "\<forall>k<26. array' ! k ! 6 =
         (if \<exists>j\<in>set [0..<5]. lidx (guess ! j) = k
          then PBool (marked_black (row_letter k) guess check) else array ! k ! 6)"
    by blast
  have m: "(\<exists>j\<in>set [0..<5]. lidx (guess ! j) = k) = (\<exists>j<5. lidx (guess ! j) = k)" for k
    by auto
  have "generate_array guess check array = Inr array'"
    using r assms(1) by (simp add: generate_array_def word_ok_len)
  moreover have "\<forall>k<26. \<forall>p<5. array' ! k ! p =
         (if lidx (guess ! p) = k then PStr [check ! p] else array ! k ! p)"
    using c1 by simp
  moreover have "\<forall>k<26. array' ! k ! 5 =
         (if \<exists>j<5. lidx (guess ! j) = k
          then PInt (marked_count (row_letter k) guess check) else array ! k ! 5)"
    using c5 unfolding m .
  moreover have "\<forall>k<26. array' ! k ! 6 =
         (if \<exists>j<5. lidx (guess ! j) = k
          then PBool (marked_black (row_letter k) guess check) else array ! k ! 6)"
    using c6 unfolding m .
  ultimately show ?thesis using ok' by blast
qed

section \<open>What \<^verbatim>\<open>valid_guess\<close> tests\<close>

lemma word_index: "word_ok w \<Longrightarrow> j < 5 \<Longrightarrow> index_of_letter (w ! j) = int (lidx (w ! j))"
  by (simp add: index_of_letter_lower word_ok_nth)

lemma word_row: "word_ok w \<Longrightarrow> j < 5 \<Longrightarrow> lidx (w ! j) < 26"
  by (simp add: lidx_less word_ok_nth)

lemma is_incorrect_position_loop_closed:
  "array_ok array \<Longrightarrow> word_ok word \<Longrightarrow> \<forall>j\<in>set js. j < 5 \<Longrightarrow>
   is_incorrect_position_loop word array js =
     Inr (\<forall>j\<in>set js. array ! lidx (word ! j) ! j \<noteq> PStr ''b'' \<and>
                       array ! lidx (word ! j) ! j \<noteq> PStr ''y'')"
  by (induction js) (simp_all add: word_index word_row cell_get_ok)

lemma is_incorrect_position_closed:
  "array_ok array \<Longrightarrow> word_ok word \<Longrightarrow>
   is_incorrect_position word array =
     Inr (\<forall>j<5. array ! lidx (word ! j) ! j \<noteq> PStr ''b'' \<and>
                array ! lidx (word ! j) ! j \<noteq> PStr ''y'')"
  by (simp add: is_incorrect_position_def is_incorrect_position_loop_closed word_ok_len ball_below)

lemma is_correct_position_rows_closed:
  "array_ok array \<Longrightarrow> j < 5 \<Longrightarrow> \<forall>k\<in>set ks. k < 26 \<Longrightarrow>
   is_correct_position_rows array j i ks =
     Inr (\<forall>k\<in>set ks. array ! k ! j = PStr ''g'' \<longrightarrow> i = int k)"
  by (induction ks) (simp_all add: cell_get_ok)

lemma is_correct_position_loop_closed:
  "array_ok array \<Longrightarrow> word_ok word \<Longrightarrow> \<forall>j\<in>set js. j < 5 \<Longrightarrow>
   is_correct_position_loop word array js =
     Inr (\<forall>j\<in>set js. \<forall>k<26. array ! k ! j = PStr ''g'' \<longrightarrow> lidx (word ! j) = k)"
  by (induction js)
     (simp_all add: is_correct_position_rows_closed array_ok_len word_index ball_below)

lemma is_correct_position_closed:
  "array_ok array \<Longrightarrow> word_ok word \<Longrightarrow>
   is_correct_position word array =
     Inr (\<forall>j<5. \<forall>k<26. array ! k ! j = PStr ''g'' \<longrightarrow> lidx (word ! j) = k)"
  by (simp add: is_correct_position_def is_correct_position_loop_closed word_ok_len ball_below)

lemma letter_frequencies_loop1_True:
  "array_ok array \<Longrightarrow> word_ok word \<Longrightarrow> \<forall>j\<in>set js. j < 5 \<Longrightarrow>
   letter_frequencies_loop1 word array js = Inr True \<longleftrightarrow>
     (\<forall>j\<in>set js. frequency_ok (array ! lidx (word ! j) ! 5) (array ! lidx (word ! j) ! 6)
                     (int (count_list word (word ! j))))"
proof (induction js)
  case Nil
  show ?case by simp
next
  case (Cons j js)
  then have j: "j < 5" by simp
  have g: "cell_get array (int (lidx (word ! j))) (-2) = Inr (array ! lidx (word ! j) ! 5)"
    "cell_get array (int (lidx (word ! j))) (-1) = Inr (array ! lidx (word ! j) ! 6)"
    using Cons.prems j by (simp_all add: cell_get_ok2 cell_get_ok1 word_row)
  show ?case
    using Cons j
    by (cases "py_gt_int (array ! lidx (word ! j) ! 5) (int (count_list word (word ! j)))")
       (auto simp: word_index g frequency_ok_def Let_def)
qed

lemma letter_frequencies_loop1_no_index_error:
  "array_ok array \<Longrightarrow> word_ok word \<Longrightarrow> \<forall>j\<in>set js. j < 5 \<Longrightarrow>
   letter_frequencies_loop1 word array js \<noteq> Inl IndexError"
proof (induction js)
  case Nil
  show ?case by simp
next
  case (Cons j js)
  then have j: "j < 5" by simp
  have g: "cell_get array (int (lidx (word ! j))) (-2) = Inr (array ! lidx (word ! j) ! 5)"
    "cell_get array (int (lidx (word ! j))) (-1) = Inr (array ! lidx (word ! j) ! 6)"
    using Cons.prems j by (simp_all add: cell_get_ok2 cell_get_ok1 word_row)
  show ?case
    using Cons j
    by (cases "array ! lidx (word ! j) ! 5")
       (auto simp: word_index g Let_def)
qed

lemma letter_frequencies_loop2_True:
  "array_ok array \<Longrightarrow> \<forall>k\<in>set ks. k < 26 \<Longrightarrow>
   letter_frequencies_loop2 word array ks = Inr True \<longleftrightarrow>
     (\<forall>k\<in>set ks. presence_ok (array ! k ! 5) (letter_in_word k word))"
proof (induction ks)
  case Nil
  show ?case by simp
next
  case (Cons k ks)
  then have k: "k < 26" by simp
  have g: "cell_get array (int k) (-2) = Inr (array ! k ! 5)"
    using Cons.prems k by (simp add: cell_get_ok2)
  show ?case
    using Cons k
    by (cases "py_ge_int (array ! k ! 5) 1") (auto simp: g presence_ok_def)
qed

lemma letter_frequencies_loop2_no_index_error:
  "array_ok array \<Longrightarrow> \<forall>k\<in>set ks. k < 26 \<Longrightarrow>
   letter_frequencies_loop2 word array ks \<noteq> Inl IndexError"
proof (induction ks)
  case Nil
  show ?case by simp
next
  case (Cons k ks)
  then have k: "k < 26" by simp
  have g: "cell_get array (int k) (-2) = Inr (array ! k ! 5)"
    using Cons.prems k by (simp add: cell_get_ok2)
  show ?case
    using Cons k
    by (cases "array ! k ! 5") (auto simp: g)
qed

lemma is_correct_letter_frequencies_True:
  "array_ok array \<Longrightarrow> word_ok word \<Longrightarrow>
   is_correct_letter_frequencies word array = Inr True \<longleftrightarrow>
     (\<forall>j<5. frequency_ok (array ! lidx (word ! j) ! 5) (array ! lidx (word ! j) ! 6)
                     (int (count_list word (word ! j)))) \<and>
     (\<forall>k<26. presence_ok (array ! k ! 5) (letter_in_word k word))"
proof -
  assume a: "array_ok array" and w: "word_ok word"
  have l1: "letter_frequencies_loop1 word array [0..<length word] = Inr True \<longleftrightarrow>
     (\<forall>j<5. frequency_ok (array ! lidx (word ! j) ! 5) (array ! lidx (word ! j) ! 6)
                     (int (count_list word (word ! j))))"
    using letter_frequencies_loop1_True [OF a w, of "[0..<5]"] w by (simp add: word_ok_len ball_below)
  have l2: "letter_frequencies_loop2 word array [0..<length array] = Inr True \<longleftrightarrow>
     (\<forall>k<26. presence_ok (array ! k ! 5) (letter_in_word k word))"
    using letter_frequencies_loop2_True [OF a, of "[0..<26]"] a by (simp add: array_ok_len ball_below)
  show ?thesis
    unfolding is_correct_letter_frequencies_def l1 [symmetric] l2 [symmetric]
    by (cases "letter_frequencies_loop1 word array [0..<length word]") auto
qed

lemma is_correct_letter_frequencies_no_index_error:
  "array_ok array \<Longrightarrow> word_ok word \<Longrightarrow>
   is_correct_letter_frequencies word array \<noteq> Inl IndexError"
proof -
  assume a: "array_ok array" and w: "word_ok word"
  have l1: "letter_frequencies_loop1 word array [0..<length word] \<noteq> Inl IndexError"
    using letter_frequencies_loop1_no_index_error [OF a w, of "[0..<5]"] w by (simp add: word_ok_len)
  have l2: "letter_frequencies_loop2 word array [0..<length array] \<noteq> Inl IndexError"
    using letter_frequencies_loop2_no_index_error [OF a, of "[0..<26]"] a by (simp add: array_ok_len)
  show ?thesis
    unfolding is_correct_letter_frequencies_def using l1 l2
    by (cases "letter_frequencies_loop1 word array [0..<length word]") auto
qed

lemma valid_guess_True:
  "array_ok array \<Longrightarrow> word_ok word \<Longrightarrow>
   valid_guess word array = Inr True \<longleftrightarrow>
     (\<forall>j<5. array ! lidx (word ! j) ! j \<noteq> PStr ''b'' \<and> array ! lidx (word ! j) ! j \<noteq> PStr ''y'') \<and>
     (\<forall>j<5. \<forall>k<26. array ! k ! j = PStr ''g'' \<longrightarrow> lidx (word ! j) = k) \<and>
     (\<forall>j<5. frequency_ok (array ! lidx (word ! j) ! 5) (array ! lidx (word ! j) ! 6)
                     (int (count_list word (word ! j)))) \<and>
     (\<forall>k<26. presence_ok (array ! k ! 5) (letter_in_word k word))"
  by (simp add: valid_guess_def is_incorrect_position_closed is_correct_position_closed
      is_correct_letter_frequencies_True)

lemma valid_guess_no_index_error:
  "array_ok array \<Longrightarrow> word_ok word \<Longrightarrow> valid_guess word array \<noteq> Inl IndexError"
  by (simp add: valid_guess_def is_incorrect_position_closed is_correct_position_closed
      is_correct_letter_frequencies_no_index_error)

section \<open>The feedback rule\<close>

lemma lower_word_nth: "lower_word w \<Longrightarrow> j < length w \<Longrightarrow> lowercase (w ! j)"
  by (simp add: lower_word_def list_all_length)

lemma greens_before_Suc:
  "greens_before guess answer letter (Suc m) =
     greens_before guess answer letter m +
       (if guess ! m = letter \<and> guess ! m = answer ! m then 1 else 0)"
  by (auto simp: greens_before_def)

lemma nongreens_before_Suc:
  "nongreens_before guess answer letter (Suc m) =
     nongreens_before guess answer letter m +
       (if guess ! m = letter \<and> guess ! m \<noteq> answer ! m then 1 else 0)"
  by (auto simp: nongreens_before_def)

lemma greens_before_0 [simp]: "greens_before guess answer letter 0 = 0"
  by (simp add: greens_before_def)

lemma nongreens_before_0 [simp]: "nongreens_before guess answer letter 0 = 0"
  by (simp add: nongreens_before_def)

lemma count_list_take:
  "m \<le> length xs \<Longrightarrow> count_list (take m xs) c = length (filter (\<lambda>k. xs ! k = c) [0..<m])"
proof (induction m)
  case 0
  show ?case by simp
next
  case (Suc m)
  then have "take (Suc m) xs = take m xs @ [xs ! m]"
    by (simp add: take_Suc_conv_app_nth)
  with Suc show ?case by simp
qed

lemma count_list_index: "count_list xs c = length (filter (\<lambda>k. xs ! k = c) [0..<length xs])"
  using count_list_take [of "length xs" xs c] by simp

lemma count_take_split:
  "m \<le> length guess \<Longrightarrow>
   count_list (take m guess) letter =
     greens_before guess answer letter m + nongreens_before guess answer letter m"
proof (induction m)
  case 0
  show ?case by (simp add: greens_before_def nongreens_before_def)
next
  case (Suc m)
  then have "take (Suc m) guess = take m guess @ [guess ! m]"
    by (simp add: take_Suc_conv_app_nth)
  with Suc show ?case by (simp add: greens_before_Suc nongreens_before_Suc)
qed

lemma greens_before_mono:
  "m \<le> n \<Longrightarrow> greens_before guess answer letter m \<le> greens_before guess answer letter n"
proof (induction n)
  case 0
  then show ?case by simp
next
  case (Suc n)
  then show ?case by (cases "m = Suc n") (auto simp: greens_before_Suc)
qed

lemma greens_le_answer:
  "length guess = length answer \<Longrightarrow>
   greens_before guess answer letter (length guess) \<le> count_list answer letter"
proof -
  assume l: "length guess = length answer"
  have "greens_before guess answer letter m \<le> length (filter (\<lambda>k. answer ! k = letter) [0..<m])" for m
    by (induction m) (auto simp: greens_before_Suc)
  from this [of "length answer"] show ?thesis by (simp add: l count_list_index)
qed

lemma count_loop_closed:
  assumes a: "lower_word answer" and l: "length answer \<le> length guess"
  shows "length fa = 26 \<Longrightarrow> length ga = 26 \<Longrightarrow> \<forall>j\<in>set js. j < length answer \<Longrightarrow>
    \<exists>fa' ga'. count_loop guess answer fa ga js = Inr (fa', ga') \<and>
      length fa' = 26 \<and> length ga' = 26 \<and>
      (\<forall>k<26. fa' ! k = fa ! k + int (length (filter (\<lambda>j. lidx (answer ! j) = k) js))) \<and>
      (\<forall>k<26. ga' ! k = ga ! k +
          int (length (filter (\<lambda>j. lidx (answer ! j) = k \<and> guess ! j = answer ! j) js)))"
proof (induction js arbitrary: fa ga)
  case Nil
  then show ?case by simp
next
  case (Cons j js)
  let ?k = "lidx (answer ! j)"
  have j: "j < length answer" and js: "\<forall>j\<in>set js. j < length answer"
    using Cons.prems(3) by simp_all
  have low: "lowercase (answer ! j)" using a j by (rule lower_word_nth)
  have k: "?k < 26" using low by (rule lidx_less)
  have i: "index_of_letter (answer ! j) = int ?k" using low by (rule index_of_letter_lower)
  have gj: "py_get guess (int j) = Inr (guess ! j)" using j l by (simp add: py_get_nat)
  let ?fa = "fa[?k := fa ! ?k + 1]"
  have f1: "py_get fa (int ?k) = Inr (fa ! ?k)" using k Cons.prems(1) by (simp add: py_get_nat)
  have f2: "py_set fa (int ?k) (fa ! ?k + 1) = Inr ?fa" using k Cons.prems(1) by (simp add: py_set_nat)
  have lfa: "length ?fa = 26" using Cons.prems(1) by simp
  show ?case
  proof (cases "guess ! j = answer ! j")
    case True
    let ?ga = "ga[?k := ga ! ?k + 1]"
    have g1: "py_get ga (int ?k) = Inr (ga ! ?k)" using k Cons.prems(2) by (simp add: py_get_nat)
    have g2: "py_set ga (int ?k) (ga ! ?k + 1) = Inr ?ga" using k Cons.prems(2) by (simp add: py_set_nat)
    have lga: "length ?ga = 26" using Cons.prems(2) by simp
    have step: "count_loop guess answer fa ga (j # js) = count_loop guess answer ?fa ?ga js"
      using True by (simp add: i f1 f2 gj g1 g2)
    from Cons.IH [OF lfa lga js] obtain fa' ga' where
      r: "count_loop guess answer ?fa ?ga js = Inr (fa', ga')" and
      len: "length fa' = 26" "length ga' = 26" and
      c1: "\<forall>k<26. fa' ! k = ?fa ! k + int (length (filter (\<lambda>j. lidx (answer ! j) = k) js))" and
      c2: "\<forall>k<26. ga' ! k = ?ga ! k +
          int (length (filter (\<lambda>j. lidx (answer ! j) = k \<and> guess ! j = answer ! j) js))"
      by blast
    have "\<forall>k<26. fa' ! k = fa ! k + int (length (filter (\<lambda>j. lidx (answer ! j) = k) (j # js)))"
      using c1 Cons.prems(1) by (auto simp: nth_list_update)
    moreover have "\<forall>k<26. ga' ! k = ga ! k +
          int (length (filter (\<lambda>j. lidx (answer ! j) = k \<and> guess ! j = answer ! j) (j # js)))"
      using c2 Cons.prems(2) True by (auto simp: nth_list_update)
    ultimately show ?thesis using step r len by simp
  next
    case False
    have step: "count_loop guess answer fa ga (j # js) = count_loop guess answer ?fa ga js"
      using False by (simp add: i f1 f2 gj)
    from Cons.IH [OF lfa Cons.prems(2) js] obtain fa' ga' where
      r: "count_loop guess answer ?fa ga js = Inr (fa', ga')" and
      len: "length fa' = 26" "length ga' = 26" and
      c1: "\<forall>k<26. fa' ! k = ?fa ! k + int (length (filter (\<lambda>j. lidx (answer ! j) = k) js))" and
      c2: "\<forall>k<26. ga' ! k = ga ! k +
          int (length (filter (\<lambda>j. lidx (answer ! j) = k \<and> guess ! j = answer ! j) js))"
      by blast
    have "\<forall>k<26. fa' ! k = fa ! k + int (length (filter (\<lambda>j. lidx (answer ! j) = k) (j # js)))"
      using c1 Cons.prems(1) by (auto simp: nth_list_update)
    moreover have "\<forall>k<26. ga' ! k = ga ! k +
          int (length (filter (\<lambda>j. lidx (answer ! j) = k \<and> guess ! j = answer ! j) (j # js)))"
      using c2 False by auto
    ultimately show ?thesis using step r len by simp
  qed
qed

lemma filter_letter_row:
  assumes a: "lower_word answer" and k: "k < 26"
  shows "filter (\<lambda>j. lidx (answer ! j) = k \<and> P j) [0..<length answer] =
         filter (\<lambda>j. answer ! j = row_letter k \<and> P j) [0..<length answer]"
proof (rule filter_cong [OF refl])
  fix j assume "j \<in> set [0..<length answer]"
  then have low: "lowercase (answer ! j)" using a by (simp add: lower_word_nth)
  have "lidx (answer ! j) = k \<longleftrightarrow> answer ! j = row_letter k"
    using row_letter_lidx [OF low] lidx_row_letter [OF k] by auto
  then show "(lidx (answer ! j) = k \<and> P j) = (answer ! j = row_letter k \<and> P j)" by simp
qed

lemma filter_letter_row_plain:
  assumes a: "lower_word answer" and k: "k < 26"
  shows "filter (\<lambda>j. lidx (answer ! j) = k) [0..<length answer] =
         filter (\<lambda>j. answer ! j = row_letter k) [0..<length answer]"
  using filter_letter_row [OF a k, of "\<lambda>j. True"] by simp

lemma count_loop_result:
  assumes a: "lower_word answer" and l: "length guess = length answer"
  shows "\<exists>fa ga. count_loop guess answer (replicate 26 0) (replicate 26 0) [0..<length answer]
        = Inr (fa, ga) \<and> length fa = 26 \<and> length ga = 26 \<and>
      (\<forall>k<26. fa ! k = int (count_list answer (row_letter k))) \<and>
      (\<forall>k<26. ga ! k = int (greens_before guess answer (row_letter k) (length guess)))"
proof -
  have le: "length answer \<le> length guess" using l by simp
  have "\<forall>j\<in>set [0..<length answer]. j < length answer" by simp
  from count_loop_closed [OF a le _ _ this, of "replicate 26 0" "replicate 26 0"]
  obtain fa ga where
    r: "count_loop guess answer (replicate 26 0) (replicate 26 0) [0..<length answer] = Inr (fa, ga)" and
    len: "length fa = 26" "length ga = 26" and
    c1: "\<forall>k<26. fa ! k = replicate 26 0 ! k +
         int (length (filter (\<lambda>j. lidx (answer ! j) = k \<and> True) [0..<length answer]))" and
    c2: "\<forall>k<26. ga ! k = replicate 26 0 ! k +
          int (length (filter (\<lambda>j. lidx (answer ! j) = k \<and> guess ! j = answer ! j) [0..<length answer]))"
    by auto
  have "fa ! k = int (count_list answer (row_letter k))" if "k < 26" for k
    using c1 that by (simp add: filter_letter_row_plain [OF a that] count_list_index)
  moreover have "ga ! k = int (greens_before guess answer (row_letter k) (length guess))" if "k < 26" for k
  proof -
    have "filter (\<lambda>j. answer ! j = row_letter k \<and> guess ! j = answer ! j) [0..<length answer]
        = filter (\<lambda>j. guess ! j = row_letter k \<and> guess ! j = answer ! j) [0..<length answer]"
      by (rule filter_cong) auto
    then show ?thesis
      using c2 that by (simp add: filter_letter_row [OF a that] greens_before_def l)
  qed
  ultimately show ?thesis using r len by blast
qed

lemma yellow_test_closed:
  assumes g: "lower_word guess" and l: "length guess = length answer"
    and lfa: "length fa = 26" and fa: "\<forall>k<26. fa ! k = int (count_list answer (row_letter k))"
    and lga: "length ga = 26"
    and ga: "\<forall>k<26. ga ! k = int (greens_before guess answer (row_letter k) (length guess))
                          - int (greens_before guess answer (row_letter k) m)"
    and m: "m < length guess" and ng: "guess ! m \<noteq> answer ! m"
  shows "yellow_test guess answer fa ga m =
     Inr (int (nongreens_before guess answer (guess ! m) (Suc m))
            \<le> int (count_list answer (guess ! m))
              - int (greens_before guess answer (guess ! m) (length guess)))"
proof -
  let ?L = "guess ! m"
  let ?k = "lidx ?L"
  let ?G = "greens_before guess answer ?L (length guess)"
  let ?gb = "greens_before guess answer ?L m"
  let ?ngb = "nongreens_before guess answer ?L (Suc m)"
  let ?f = "count_list answer ?L"
  have low: "lowercase ?L" using g m by (rule lower_word_nth)
  have k: "?k < 26" using low by (rule lidx_less)
  have i: "index_of_letter ?L = int ?k" using low by (rule index_of_letter_lower)
  have letter: "row_letter ?k = ?L" using low by (rule row_letter_lidx)
  have f1: "py_get fa (int ?k) = Inr (int ?f)"
    using k lfa fa letter by (simp add: py_get_nat)
  have g1: "py_get ga (int ?k) = Inr (int ?G - int ?gb)"
    using k lga ga letter by (simp add: py_get_nat)
  have cnt: "count_list (take (m + 1) guess) ?L = ?gb + ?ngb"
    using count_take_split [of "Suc m" guess ?L answer] m ng
    by (simp add: greens_before_Suc)
  have pos: "1 \<le> ?ngb" using ng by (simp add: nongreens_before_Suc)
  have mono: "?gb \<le> ?G" using m by (simp add: greens_before_mono)
  have mem: "?L \<in> set answer \<longleftrightarrow> 1 \<le> ?f"
    using count_list_0_iff [of answer ?L] by auto
  show ?thesis
  proof (cases "int ?ngb \<le> int ?f - int ?G")
    case True
    then have "1 \<le> ?f" "int (?gb + ?ngb) \<le> int ?f" "int ?G - int ?gb \<le> int ?f - int (?gb + ?ngb)"
      using pos mono by linarith+
    then show ?thesis
      using True mem unfolding yellow_test_def Let_def i cnt
      by (simp add: f1 g1)
  next
    case False
    then have "\<not> (int ?G - int ?gb \<le> int ?f - int (?gb + ?ngb))"
      by linarith
    then show ?thesis
      using False unfolding yellow_test_def Let_def i cnt
      by (simp add: f1 g1)
  qed
qed

lemma colour_loop_closed:
  assumes g: "lower_word guess" and l: "length guess = length answer"
    and lfa: "length fa = 26" and fa: "\<forall>k<26. fa ! k = int (count_list answer (row_letter k))"
  shows "js = [m..<length guess] \<Longrightarrow> length ga = 26 \<Longrightarrow>
    \<forall>k<26. ga ! k = int (greens_before guess answer (row_letter k) (length guess))
                          - int (greens_before guess answer (row_letter k) m) \<Longrightarrow>
    colour_loop guess answer fa ga seq js = Inr (seq @ map (feedback_colour guess answer) js)"
proof (induction js arbitrary: m ga seq)
  case Nil
  show ?case by simp
next
  case (Cons j js)
  have "m < length guess \<and> j = m \<and> js = [Suc m..<length guess]"
    using Cons.prems(1) [symmetric] by (auto simp: upt_eq_Cons_conv)
  then have m: "m < length guess" and jm: "j = m" and js: "js = [Suc m..<length guess]"
    by simp_all
  let ?L = "guess ! m"
  let ?k = "lidx ?L"
  have low: "lowercase ?L" using g m by (rule lower_word_nth)
  have k: "?k < 26" using low by (rule lidx_less)
  have i: "index_of_letter ?L = int ?k" using low by (rule index_of_letter_lower)
  have letter: "row_letter ?k = ?L" using low by (rule row_letter_lidx)
  have am: "py_get answer (int m) = Inr (answer ! m)" using m l by (simp add: py_get_nat)
  show ?case
  proof (cases "guess ! m = answer ! m")
    case True
    let ?ga = "ga[?k := ga ! ?k - 1]"
    have g1: "py_get ga (int ?k) = Inr (ga ! ?k)" using k Cons.prems(2) by (simp add: py_get_nat)
    have g2: "py_set ga (int ?k) (ga ! ?k - 1) = Inr ?ga" using k Cons.prems(2) by (simp add: py_set_nat)
    have lga: "length ?ga = 26" using Cons.prems(2) by simp
    have inv: "\<forall>k<26. ?ga ! k = int (greens_before guess answer (row_letter k) (length guess))
                          - int (greens_before guess answer (row_letter k) (Suc m))"
    proof (intro allI impI)
      fix k' :: nat assume k': "k' < 26"
      show "?ga ! k' = int (greens_before guess answer (row_letter k') (length guess))
                          - int (greens_before guess answer (row_letter k') (Suc m))"
      proof (cases "k' = ?k")
        case True
        then show ?thesis
          using Cons.prems(2,3) k letter \<open>guess ! m = answer ! m\<close>
          by (simp add: greens_before_Suc)
      next
        case False
        then have "row_letter k' \<noteq> ?L" using lidx_row_letter [OF k'] by auto
        then show ?thesis
          using Cons.prems(3) k' False by (simp add: greens_before_Suc)
      qed
    qed
    have col: "feedback_colour guess answer m = CHR ''g''"
      using True by (simp add: feedback_colour_def)
    have "colour_loop guess answer fa ga seq (j # js) =
          colour_loop guess answer fa ?ga (seq @ ''g'') js"
      by (simp add: jm i am g1 g2 True [symmetric] Let_def)
    also have "\<dots> = Inr ((seq @ ''g'') @ map (feedback_colour guess answer) js)"
      using js lga inv by (rule Cons.IH)
    finally show ?thesis by (simp add: jm col)
  next
    case False
    have inv: "\<forall>k<26. ga ! k = int (greens_before guess answer (row_letter k) (length guess))
                          - int (greens_before guess answer (row_letter k) (Suc m))"
      using Cons.prems(3) False by (simp add: greens_before_Suc)
    have y: "yellow_test guess answer fa ga m =
      Inr (int (nongreens_before guess answer ?L (Suc m))
            \<le> int (count_list answer ?L) - int (greens_before guess answer ?L (length guess)))"
      using g l lfa fa Cons.prems(2,3) m False by (rule yellow_test_closed)
    show ?thesis
    proof (cases "int (nongreens_before guess answer ?L (Suc m))
            \<le> int (count_list answer ?L) - int (greens_before guess answer ?L (length guess))")
      case True
      have col: "feedback_colour guess answer m = CHR ''y''"
        using True False by (simp add: feedback_colour_def)
      have "colour_loop guess answer fa ga seq (j # js) =
          colour_loop guess answer fa ga (seq @ ''y'') js"
        using True False by (simp add: jm am y)
      also have "\<dots> = Inr ((seq @ ''y'') @ map (feedback_colour guess answer) js)"
        using js Cons.prems(2) inv by (rule Cons.IH)
      finally show ?thesis by (simp add: jm col)
    next
      case nb: False
      have col: "feedback_colour guess answer m = CHR ''b''"
        using nb False by (simp add: feedback_colour_def)
      have "colour_loop guess answer fa ga seq (j # js) =
          colour_loop guess answer fa ga (seq @ ''b'') js"
        using nb False by (simp add: jm am y)
      also have "\<dots> = Inr ((seq @ ''b'') @ map (feedback_colour guess answer) js)"
        using js Cons.prems(2) inv by (rule Cons.IH)
      finally show ?thesis by (simp add: jm col)
    qed
  qed
qed

lemma compute_wordle_information_closed:
  assumes g: "lower_word guess" and a: "lower_word answer" and l: "length guess = length answer"
  shows "compute_wordle_information guess answer =
           Inr (map (feedback_colour guess answer) [0..<length guess])"
proof -
  from count_loop_result [OF a l] obtain fa ga where
    r: "count_loop guess answer (replicate 26 0) (replicate 26 0) [0..<length answer] = Inr (fa, ga)" and
    len: "length fa = 26" "length ga = 26" and
    c1: "\<forall>k<26. fa ! k = int (count_list answer (row_letter k))" and
    c2: "\<forall>k<26. ga ! k = int (greens_before guess answer (row_letter k) (length guess))"
    by blast
  have inv: "\<forall>k<26. ga ! k = int (greens_before guess answer (row_letter k) (length guess))
                          - int (greens_before guess answer (row_letter k) 0)"
    using c2 by simp
  have "colour_loop guess answer fa ga [] [0..<length guess] =
          Inr ([] @ map (feedback_colour guess answer) [0..<length guess])"
    using g l len(1) c1 refl len(2) inv by (rule colour_loop_closed)
  then show ?thesis by (simp add: compute_wordle_information_def r)
qed

lemma marked_prefix:
  assumes B: "B = int (count_list answer letter) - int (greens_before guess answer letter (length guess))"
    and B0: "0 \<le> B"
  shows "int (length (filter (\<lambda>i. (feedback_colour guess answer i = CHR ''g'' \<or>
                                   feedback_colour guess answer i = CHR ''y'') \<and> guess ! i = letter)
                       [0..<m]))
         = int (greens_before guess answer letter m)
           + min (int (nongreens_before guess answer letter m)) B"
proof (induction m)
  case 0
  show ?case using B0 by simp
next
  case (Suc m)
  show ?case
  proof (cases "guess ! m = letter")
    case False
    then show ?thesis using Suc by (simp add: greens_before_Suc nongreens_before_Suc)
  next
    case True
    show ?thesis
    proof (cases "guess ! m = answer ! m")
      case green: True
      then have "feedback_colour guess answer m = CHR ''g''" by (simp add: feedback_colour_def)
      then show ?thesis using Suc True green by (simp add: greens_before_Suc nongreens_before_Suc)
    next
      case nongreen: False
      have n: "nongreens_before guess answer letter (Suc m) = nongreens_before guess answer letter m + 1"
        using True nongreen by (simp add: nongreens_before_Suc)
      have gb: "greens_before guess answer letter (Suc m) = greens_before guess answer letter m"
        using nongreen by (simp add: greens_before_Suc)
      show ?thesis
      proof (cases "int (nongreens_before guess answer letter m) + 1 \<le> B")
        case yes: True
        then have "feedback_colour guess answer m = CHR ''y''"
          using True nongreen B n by (simp add: feedback_colour_def)
        then show ?thesis using Suc True yes n gb by simp
      next
        case no: False
        then have "feedback_colour guess answer m = CHR ''b''"
          using True nongreen B n by (simp add: feedback_colour_def)
        then show ?thesis using Suc True no n gb by simp
      qed
    qed
  qed
qed

lemma black_prefix:
  assumes B: "B = int (count_list answer letter) - int (greens_before guess answer letter (length guess))"
    and B0: "0 \<le> B"
  shows "list_ex (\<lambda>i. feedback_colour guess answer i = CHR ''b'' \<and> guess ! i = letter) [0..<m]
         \<longleftrightarrow> B < int (nongreens_before guess answer letter m)"
proof (induction m)
  case 0
  show ?case using B0 by simp
next
  case (Suc m)
  show ?case
  proof (cases "guess ! m = letter")
    case False
    then show ?thesis using Suc by (simp add: nongreens_before_Suc)
  next
    case True
    show ?thesis
    proof (cases "guess ! m = answer ! m")
      case green: True
      then have "feedback_colour guess answer m = CHR ''g''" by (simp add: feedback_colour_def)
      then show ?thesis using Suc True green by (simp add: nongreens_before_Suc)
    next
      case nongreen: False
      have n: "nongreens_before guess answer letter (Suc m) = nongreens_before guess answer letter m + 1"
        using True nongreen by (simp add: nongreens_before_Suc)
      show ?thesis
      proof (cases "int (nongreens_before guess answer letter m) + 1 \<le> B")
        case yes: True
        then have "feedback_colour guess answer m = CHR ''y''"
          using True nongreen B n by (simp add: feedback_colour_def)
        then show ?thesis using Suc True yes n by simp
      next
        case no: False
        then have "feedback_colour guess answer m = CHR ''b''"
          using True nongreen B n by (simp add: feedback_colour_def)
        then show ?thesis using Suc True no n by simp
      qed
    qed
  qed
qed

lemma feedback_nth:
  "i < length guess \<Longrightarrow>
   map (feedback_colour guess answer) [0..<length guess] ! i = feedback_colour guess answer i"
  by simp

lemma marked_count_feedback:
  assumes l: "length guess = length answer"
  shows "marked_count letter guess (map (feedback_colour guess answer) [0..<length guess])
         = min (int (count_list guess letter)) (int (count_list answer letter))"
proof -
  let ?s = "map (feedback_colour guess answer) [0..<length guess]"
  let ?B = "int (count_list answer letter) - int (greens_before guess answer letter (length guess))"
  have B0: "0 \<le> ?B" using greens_le_answer [OF l, of letter] by simp
  have "filter (\<lambda>i. (?s ! i = CHR ''g'' \<or> ?s ! i = CHR ''y'') \<and> guess ! i = letter) [0..<length guess]
      = filter (\<lambda>i. (feedback_colour guess answer i = CHR ''g'' \<or>
                      feedback_colour guess answer i = CHR ''y'') \<and> guess ! i = letter) [0..<length guess]"
    by (rule filter_cong) simp_all
  then have "marked_count letter guess ?s
      = int (greens_before guess answer letter (length guess))
           + min (int (nongreens_before guess answer letter (length guess))) ?B"
    unfolding marked_count_def using marked_prefix [OF refl B0, of "length guess"] by simp
  moreover have "count_list guess letter =
      greens_before guess answer letter (length guess) + nongreens_before guess answer letter (length guess)"
    using count_take_split [of "length guess" guess letter answer] by simp
  ultimately show ?thesis by simp
qed

lemma marked_black_feedback:
  assumes l: "length guess = length answer"
  shows "marked_black letter guess (map (feedback_colour guess answer) [0..<length guess])
         \<longleftrightarrow> count_list answer letter < count_list guess letter"
proof -
  let ?s = "map (feedback_colour guess answer) [0..<length guess]"
  let ?B = "int (count_list answer letter) - int (greens_before guess answer letter (length guess))"
  have B0: "0 \<le> ?B" using greens_le_answer [OF l, of letter] by simp
  have "list_ex (\<lambda>i. ?s ! i = CHR ''b'' \<and> guess ! i = letter) [0..<length guess]
      = list_ex (\<lambda>i. feedback_colour guess answer i = CHR ''b'' \<and> guess ! i = letter) [0..<length guess]"
    by (simp add: list_ex_iff)
  then have "marked_black letter guess ?s
      \<longleftrightarrow> ?B < int (nongreens_before guess answer letter (length guess))"
    unfolding marked_black_def using black_prefix [OF refl B0, of "length guess"] by simp
  moreover have "count_list guess letter =
      greens_before guess answer letter (length guess) + nongreens_before guess answer letter (length guess)"
    using count_take_split [of "length guess" guess letter answer] by simp
  ultimately show ?thesis by auto
qed

section \<open>The answer stays a candidate\<close>

lemma word_ok_lower: "word_ok w \<Longrightarrow> lower_word w"
  by (simp add: word_ok_def lower_word_def)

lemma empty_array_cell: "k < 26 \<Longrightarrow> p < 7 \<Longrightarrow> empty_array ! k ! p = PInt 0"
  by (simp add: empty_array_def)

lemma consistent_empty: "consistent answer empty_array"
  by (simp add: consistent_def array_ok_empty empty_array_cell)

lemma consistent_valid:
  assumes w: "word_ok answer" and c: "consistent answer array"
  shows "valid_guess answer array = Inr True"
proof -
  have ok: "array_ok array" using c by (simp add: consistent_def)
  have pos: "\<And>k p. k < 26 \<Longrightarrow> p < 5 \<Longrightarrow>
         (array ! k ! p = PStr ''g'' \<longrightarrow> lidx (answer ! p) = k) \<and>
         (array ! k ! p = PStr ''b'' \<or> array ! k ! p = PStr ''y'' \<longrightarrow> lidx (answer ! p) \<noteq> k)"
    using c by (simp add: consistent_def)
  have cnt: "\<And>k. k < 26 \<Longrightarrow> \<exists>c. array ! k ! 5 = PInt c \<and> c \<le> int (count_list answer (row_letter k)) \<and>
         (truthy (array ! k ! 6) \<longrightarrow> c = int (count_list answer (row_letter k)))"
    using c by (simp add: consistent_def)
  have a: "\<forall>j<5. array ! lidx (answer ! j) ! j \<noteq> PStr ''b'' \<and> array ! lidx (answer ! j) ! j \<noteq> PStr ''y''"
    using pos word_row [OF w] by blast
  have b: "\<forall>j<5. \<forall>k<26. array ! k ! j = PStr ''g'' \<longrightarrow> lidx (answer ! j) = k"
    using pos by blast
  have f: "frequency_ok (array ! lidx (answer ! j) ! 5) (array ! lidx (answer ! j) ! 6)
                     (int (count_list answer (answer ! j)))" if j: "j < 5" for j
  proof -
    have k: "lidx (answer ! j) < 26" using w j by (rule word_row)
    have l: "row_letter (lidx (answer ! j)) = answer ! j"
      using w j by (simp add: row_letter_lidx word_ok_nth)
    from cnt [OF k] show ?thesis by (auto simp: frequency_ok_def l)
  qed
  have p: "presence_ok (array ! k ! 5) (letter_in_word k answer)" if k: "k < 26" for k
  proof -
    from cnt [OF k] obtain c where c5: "array ! k ! 5 = PInt c"
      and le: "c \<le> int (count_list answer (row_letter k))" by blast
    have "letter_in_word k answer" if "1 \<le> c"
    proof -
      have "count_list answer (row_letter k) \<noteq> 0" using le that by simp
      then have "row_letter k \<in> set answer" by (simp add: count_list_0_iff)
      then show ?thesis using k by (simp add: letter_in_word_def row_letter_def)
    qed
    then show ?thesis by (auto simp: presence_ok_def c5)
  qed
  show ?thesis using a b f p by (simp add: valid_guess_True [OF ok w])
qed

lemma feedback_colour_green:
  "feedback_colour guess answer j = CHR ''g'' \<longleftrightarrow> guess ! j = answer ! j"
  by (simp add: feedback_colour_def)

lemma consistent_step:
  assumes w: "word_ok answer" and g: "word_ok guess" and c: "consistent answer array"
  shows "\<exists>check array'. compute_wordle_information guess answer = Inr check \<and>
           generate_array guess check array = Inr array' \<and> consistent answer array'"
proof -
  let ?s = "map (feedback_colour guess answer) [0..<length guess]"
  have len: "length guess = length answer" using w g by (simp add: word_ok_len)
  have n5: "length guess = 5" using g by (rule word_ok_len)
  have info: "compute_wordle_information guess answer = Inr ?s"
    using word_ok_lower [OF g] word_ok_lower [OF w] len by (rule compute_wordle_information_closed)
  have ok: "array_ok array" using c by (simp add: consistent_def)
  have pos: "\<And>k p. k < 26 \<Longrightarrow> p < 5 \<Longrightarrow>
         (array ! k ! p = PStr ''g'' \<longrightarrow> lidx (answer ! p) = k) \<and>
         (array ! k ! p = PStr ''b'' \<or> array ! k ! p = PStr ''y'' \<longrightarrow> lidx (answer ! p) \<noteq> k)"
    using c by (simp add: consistent_def)
  have cnt: "\<And>k. k < 26 \<Longrightarrow> \<exists>c. array ! k ! 5 = PInt c \<and> c \<le> int (count_list answer (row_letter k)) \<and>
         (truthy (array ! k ! 6) \<longrightarrow> c = int (count_list answer (row_letter k)))"
    using c by (simp add: consistent_def)
  have l5: "5 \<le> length ?s" using n5 by simp
  from generate_array_cells [OF g l5 ok] obtain array' where
    r: "generate_array guess ?s array = Inr array'" and ok': "array_ok array'" and
    c1: "\<And>k p. k < 26 \<Longrightarrow> p < 5 \<Longrightarrow> array' ! k ! p =
         (if lidx (guess ! p) = k then PStr [?s ! p] else array ! k ! p)" and
    c5: "\<And>k. k < 26 \<Longrightarrow> array' ! k ! 5 =
         (if \<exists>j<5. lidx (guess ! j) = k
          then PInt (marked_count (row_letter k) guess ?s) else array ! k ! 5)" and
    c6: "\<And>k. k < 26 \<Longrightarrow> array' ! k ! 6 =
         (if \<exists>j<5. lidx (guess ! j) = k
          then PBool (marked_black (row_letter k) guess ?s) else array ! k ! 6)"
    by blast
  have P: "(array' ! k ! p = PStr ''g'' \<longrightarrow> lidx (answer ! p) = k) \<and>
         (array' ! k ! p = PStr ''b'' \<or> array' ! k ! p = PStr ''y'' \<longrightarrow> lidx (answer ! p) \<noteq> k)"
    if k: "k < 26" and p: "p < 5" for k p
  proof (cases "lidx (guess ! p) = k")
    case False
    then show ?thesis using c1 [OF k p] pos [OF k p] by simp
  next
    case True
    have sp: "?s ! p = feedback_colour guess answer p" using p n5 by simp
    have cell: "array' ! k ! p = PStr [feedback_colour guess answer p]"
      using c1 [OF k p] True sp by simp
    have inj: "lidx (answer ! p) = lidx (guess ! p) \<Longrightarrow> answer ! p = guess ! p"
      using lidx_inj [OF word_ok_nth [OF w p] word_ok_nth [OF g p]] by simp
    show ?thesis
    proof (cases "guess ! p = answer ! p")
      case green: True
      then have "feedback_colour guess answer p = CHR ''g''" by (simp add: feedback_colour_def)
      then show ?thesis using cell True green by simp
    next
      case nongreen: False
      then have "feedback_colour guess answer p \<noteq> CHR ''g''" by (simp add: feedback_colour_green)
      moreover have "lidx (answer ! p) \<noteq> k" using inj nongreen True by auto
      ultimately show ?thesis using cell by simp
    qed
  qed
  have C: "\<exists>c. array' ! k ! 5 = PInt c \<and> c \<le> int (count_list answer (row_letter k)) \<and>
         (truthy (array' ! k ! 6) \<longrightarrow> c = int (count_list answer (row_letter k)))"
    if k: "k < 26" for k
  proof (cases "\<exists>j<5. lidx (guess ! j) = k")
    case False
    have e5: "array' ! k ! 5 = array ! k ! 5" using c5 [OF k] False by (simp only: if_False)
    have e6: "array' ! k ! 6 = array ! k ! 6" using c6 [OF k] False by (simp only: if_False)
    show ?thesis using cnt [OF k] unfolding e5 e6 .
  next
    case True
    have e5: "array' ! k ! 5 = PInt (marked_count (row_letter k) guess ?s)"
      using c5 [OF k] True by (simp only: if_True)
    have e6: "array' ! k ! 6 = PBool (marked_black (row_letter k) guess ?s)"
      using c6 [OF k] True by (simp only: if_True)
    have m: "marked_count (row_letter k) guess ?s =
        min (int (count_list guess (row_letter k))) (int (count_list answer (row_letter k)))"
      using len by (rule marked_count_feedback)
    have b: "marked_black (row_letter k) guess ?s \<longleftrightarrow>
        count_list answer (row_letter k) < count_list guess (row_letter k)"
      using len by (rule marked_black_feedback)
    show ?thesis unfolding e5 e6 using m b by auto
  qed
  have "consistent answer array'"
    unfolding consistent_def using ok' P C by blast
  then show ?thesis using info r by blast
qed

lemma feedback_rounds_consistent:
  assumes w: "word_ok answer"
  shows "list_all word_ok guesses \<Longrightarrow> consistent answer array \<Longrightarrow>
     \<exists>array'. feedback_rounds answer guesses array = Inr array' \<and> consistent answer array'"
proof (induction guesses arbitrary: array)
  case Nil
  then show ?case by simp
next
  case (Cons guess guesses)
  then have g: "word_ok guess" and gs: "list_all word_ok guesses" by simp_all
  from consistent_step [OF w g Cons.prems(2)] obtain check array1 where
    i: "compute_wordle_information guess answer = Inr check" and
    r: "generate_array guess check array = Inr array1" and c1: "consistent answer array1"
    by blast
  from Cons.IH [OF gs c1] show ?case by (simp add: i r)
qed

text \<open>
  C1: take a five-letter lowercase answer and any list of five-letter lowercase guesses,
  start from the all-zero array and, for each guess in turn, store the feedback that
  \<^verbatim>\<open>compute_wordle_information\<close> gives for it with \<^verbatim>\<open>generate_array\<close>. After
  each of these updates (after the first \<open>n\<close> guesses, for every \<open>n\<close>) nothing has raised
  and \<^verbatim>\<open>valid_guess\<close> returns True for the answer.
\<close>

theorem answer_never_excluded:
  assumes "word_ok answer" and "list_all word_ok guesses" and "n \<le> length guesses"
  shows "\<exists>array. feedback_rounds answer (take n guesses) empty_array = Inr array \<and>
           valid_guess answer array = Inr True"
proof -
  have "list_all word_ok (take n guesses)"
    using assms(2) by (auto simp: list_all_iff dest: in_set_takeD)
  from feedback_rounds_consistent [OF assms(1) this consistent_empty]
  obtain array where "feedback_rounds answer (take n guesses) empty_array = Inr array"
    and "consistent answer array" by blast
  then show ?thesis using consistent_valid [OF assms(1)] by blast
qed

theorem answer_never_excluded_witness:
  "word_ok ''melee'' \<and> list_all word_ok [''eerie'', ''those''] \<and>
   2 \<le> length [''eerie'', ''those''] \<and>
   (\<exists>array. feedback_rounds ''melee'' (take 2 [''eerie'', ''those'']) empty_array = Inr array \<and>
            valid_guess ''melee'' array = Inr True)"
proof -
  have h1: "word_ok ''melee''" by (simp add: word_ok_def lowercase_def)
  have h2: "list_all word_ok [''eerie'', ''those'']" by (simp add: word_ok_def lowercase_def)
  have h3: "2 \<le> length [''eerie'', ''those'']" by simp
  from answer_never_excluded [OF h1 h2 h3] show ?thesis using h1 h2 h3 by blast
qed

section \<open>Feedback for repeated letters\<close>

lemma nongreens_before_mono:
  "m \<le> n \<Longrightarrow> nongreens_before guess answer letter m \<le> nongreens_before guess answer letter n"
proof (induction n)
  case 0
  then show ?case by simp
next
  case (Suc n)
  then show ?case by (cases "m = Suc n") (auto simp: nongreens_before_Suc)
qed

lemma yellow_before_black:
  assumes "j < j'" and "guess ! j = guess ! j'"
    and "feedback_colour guess answer j = CHR ''b''"
  shows "feedback_colour guess answer j' \<noteq> CHR ''y''"
proof -
  let ?B = "int (count_list answer (guess ! j)) - int (greens_before guess answer (guess ! j) (length guess))"
  have "\<not> int (nongreens_before guess answer (guess ! j) (Suc j)) \<le> ?B"
    using assms(3) by (auto simp: feedback_colour_def split: if_splits)
  moreover have "nongreens_before guess answer (guess ! j) (Suc j)
      \<le> nongreens_before guess answer (guess ! j) (Suc j')"
    using assms(1) by (simp add: nongreens_before_mono)
  ultimately have "\<not> int (nongreens_before guess answer (guess ! j') (Suc j')) \<le>
     int (count_list answer (guess ! j')) - int (greens_before guess answer (guess ! j') (length guess))"
    using assms(2) by simp
  then show ?thesis by (simp add: feedback_colour_def)
qed

text \<open>
  C2: for lowercase words of equal length the feedback is, position by position, the
  colour of \<open>feedback_colour\<close>: green exactly where guess and answer agree, yellow at a
  position that is not green exactly when the non-green occurrences of its letter among
  the positions up to it do not exceed the answer's count of the letter minus the letter's
  green count, black otherwise. So the positions of a letter marked green or yellow number
  the smaller of its counts in guess and answer, a black mark for the letter occurs exactly
  when the guess has more copies than the answer, and among the positions of one letter a
  black one is never followed by a yellow one: the copies in excess that turn black are the
  later ones among those that are not green.
\<close>

theorem feedback_rule:
  assumes "lower_word guess" and "lower_word answer" and "length guess = length answer"
  shows "\<exists>sequence. compute_wordle_information guess answer = Inr sequence \<and>
           sequence = map (feedback_colour guess answer) [0..<length guess] \<and>
           (\<forall>letter. marked_count letter guess sequence =
                      min (int (count_list guess letter)) (int (count_list answer letter))) \<and>
           (\<forall>letter. marked_black letter guess sequence \<longleftrightarrow>
                      count_list answer letter < count_list guess letter) \<and>
           (\<forall>j j'. j < j' \<and> j' < length guess \<and> guess ! j = guess ! j' \<and> sequence ! j = CHR ''b''
                    \<longrightarrow> sequence ! j' \<noteq> CHR ''y'')"
proof -
  let ?s = "map (feedback_colour guess answer) [0..<length guess]"
  have "compute_wordle_information guess answer = Inr ?s"
    using assms by (rule compute_wordle_information_closed)
  moreover have "\<forall>letter. marked_count letter guess ?s =
                      min (int (count_list guess letter)) (int (count_list answer letter))"
    using marked_count_feedback [OF assms(3)] by blast
  moreover have "\<forall>letter. marked_black letter guess ?s \<longleftrightarrow>
                      count_list answer letter < count_list guess letter"
    using marked_black_feedback [OF assms(3)] by blast
  moreover have "\<forall>j j'. j < j' \<and> j' < length guess \<and> guess ! j = guess ! j' \<and> ?s ! j = CHR ''b''
                    \<longrightarrow> ?s ! j' \<noteq> CHR ''y''"
    using yellow_before_black [of _ _ guess answer] by auto
  ultimately show ?thesis by blast
qed

theorem feedback_rule_witness:
  "lower_word ''eerie'' \<and> lower_word ''abide'' \<and> length ''eerie'' = length ''abide'' \<and>
   compute_wordle_information ''eerie'' ''abide'' = Inr ''bbbyg'' \<and>
   marked_count (CHR ''e'') ''eerie'' ''bbbyg'' = 1 \<and>
   marked_black (CHR ''e'') ''eerie'' ''bbbyg''"
proof -
  have h1: "lower_word ''eerie''" and h2: "lower_word ''abide''"
    by (simp_all add: lower_word_def lowercase_def)
  have h3: "length ''eerie'' = length ''abide''" by simp
  have s: "map (feedback_colour ''eerie'' ''abide'') [0..<length ''eerie''] = ''bbbyg''"
    by code_simp
  have c: "count_list ''eerie'' (CHR ''e'') = 3" "count_list ''abide'' (CHR ''e'') = 1"
    by simp_all
  from feedback_rule [OF h1 h2 h3] show ?thesis
    unfolding s using h1 h2 h3 c by simp
qed

section \<open>The stored counts follow the latest guess\<close>

theorem counts_overwritten_counterexample:
  "compute_wordle_information ''eerie'' ''melee'' = Inr ''ygbbg'' \<and>
   compute_wordle_information ''those'' ''melee'' = Inr ''bbbbg'' \<and>
   min_count_after [(''eerie'', ''ygbbg'')] (CHR ''e'') = Inr (PInt 3) \<and>
   exact_count_after [(''eerie'', ''ygbbg'')] (CHR ''e'') = Inr (PBool False) \<and>
   min_count_after [(''eerie'', ''ygbbg''), (''those'', ''bbbbg'')] (CHR ''e'') = Inr (PInt 1) \<and>
   compute_wordle_information ''eerie'' ''abide'' = Inr ''bbbyg'' \<and>
   compute_wordle_information ''abode'' ''abide'' = Inr ''ggbgg'' \<and>
   exact_count_after [(''eerie'', ''bbbyg'')] (CHR ''e'') = Inr (PBool True) \<and>
   exact_count_after [(''eerie'', ''bbbyg''), (''abode'', ''ggbgg'')] (CHR ''e'') = Inr (PBool False)"
  by code_simp

lemma letter_in_guess:
  assumes g: "word_ok guess" and l: "lowercase letter"
  shows "(\<exists>j<5. lidx (guess ! j) = lidx letter) \<longleftrightarrow> letter \<in> set guess"
proof
  assume "\<exists>j<5. lidx (guess ! j) = lidx letter"
  then obtain j where j: "j < 5" and e: "lidx (guess ! j) = lidx letter" by blast
  have "guess ! j = letter" using lidx_inj [OF word_ok_nth [OF g j] l e] .
  then show "letter \<in> set guess" using j g by (auto simp: word_ok_len in_set_conv_nth)
next
  assume "letter \<in> set guess"
  then obtain j where "j < length guess" "guess ! j = letter" by (auto simp: in_set_conv_nth)
  then show "\<exists>j<5. lidx (guess ! j) = lidx letter" using g by (auto simp: word_ok_len)
qed

text \<open>
  C3, as the code has it: \<^verbatim>\<open>generate_array\<close> does not merge with what the array holds.
  For a letter of the guess the count cell becomes the number of the letter's positions
  marked green or yellow in this guess, and the flag becomes whether one of them is marked
  black, whatever both were before; for any other letter both cells stay as they are.
\<close>

theorem generate_array_overwrites_counts:
  assumes g: "word_ok guess" and c: "5 \<le> length check" and a: "array_ok array"
    and l: "lowercase letter"
  shows "\<exists>array'. generate_array guess check array = Inr array' \<and>
     min_count array' letter =
       (if letter \<in> set guess then Inr (PInt (marked_count letter guess check))
        else min_count array letter) \<and>
     exact_count array' letter =
       (if letter \<in> set guess then Inr (PBool (marked_black letter guess check))
        else exact_count array letter)"
proof -
  let ?k = "lidx letter"
  have k: "?k < 26" using l by (rule lidx_less)
  have i: "index_of_letter letter = int ?k" using l by (rule index_of_letter_lower)
  have rl: "row_letter ?k = letter" using l by (rule row_letter_lidx)
  from generate_array_cells [OF g c a] obtain array' where
    r: "generate_array guess check array = Inr array'" and ok': "array_ok array'" and
    c5: "\<And>k. k < 26 \<Longrightarrow> array' ! k ! 5 =
         (if \<exists>j<5. lidx (guess ! j) = k
          then PInt (marked_count (row_letter k) guess check) else array ! k ! 5)" and
    c6: "\<And>k. k < 26 \<Longrightarrow> array' ! k ! 6 =
         (if \<exists>j<5. lidx (guess ! j) = k
          then PBool (marked_black (row_letter k) guess check) else array ! k ! 6)"
    by blast
  have "min_count array' letter =
       (if letter \<in> set guess then Inr (PInt (marked_count letter guess check))
        else min_count array letter)"
    using c5 [OF k] by (simp add: min_count_def i cell_get_ok2 a ok' k letter_in_guess [OF g l] rl)
  moreover have "exact_count array' letter =
       (if letter \<in> set guess then Inr (PBool (marked_black letter guess check))
        else exact_count array letter)"
    using c6 [OF k] by (simp add: exact_count_def i cell_get_ok1 a ok' k letter_in_guess [OF g l] rl)
  ultimately show ?thesis using r by blast
qed

theorem generate_array_overwrites_counts_witness:
  "word_ok ''abode'' \<and> 5 \<le> length ''ggbgg'' \<and> array_ok empty_array \<and> lowercase (CHR ''e'') \<and>
   (\<exists>array'. generate_array ''abode'' ''ggbgg'' empty_array = Inr array' \<and>
      min_count array' (CHR ''e'') = Inr (PInt 1) \<and>
      exact_count array' (CHR ''e'') = Inr (PBool False))"
proof -
  have h1: "word_ok ''abode''" by (simp add: word_ok_def lowercase_def)
  have h2: "5 \<le> length ''ggbgg''" by simp
  have h4: "lowercase (CHR ''e'')" by (simp add: lowercase_def)
  have m: "marked_count (CHR ''e'') ''abode'' ''ggbgg'' = 1"
    "marked_black (CHR ''e'') ''abode'' ''ggbgg'' = False"
    by code_simp+
  from generate_array_overwrites_counts [OF h1 h2 array_ok_empty h4]
  show ?thesis using h1 h2 h4 array_ok_empty m by simp
qed

section \<open>Indices stay in bounds\<close>

theorem short_check_counterexample:
  "word_ok ''abcde'' \<and> array_ok empty_array \<and>
   generate_array ''abcde'' [] empty_array = Inl IndexError"
  by code_simp

text \<open>
  C10, with the length of the check among the preconditions: for five-letter lowercase
  words, an array of 26 rows of 7 cells and a check of at least five characters, every
  row index of \<^verbatim>\<open>index_of_letter\<close> lies in 0..25, none of the four tests raises
  IndexError, and \<^verbatim>\<open>generate_array\<close> returns an array of the same shape.
\<close>

theorem indexing_in_bounds:
  assumes w: "word_ok word" and g: "word_ok guess" and a: "array_ok array"
    and c: "5 \<le> length check"
  shows "(\<forall>j<5. 0 \<le> index_of_letter (word ! j) \<and> index_of_letter (word ! j) < 26) \<and>
     is_incorrect_position word array \<noteq> Inl IndexError \<and>
     is_correct_position word array \<noteq> Inl IndexError \<and>
     is_correct_letter_frequencies word array \<noteq> Inl IndexError \<and>
     valid_guess word array \<noteq> Inl IndexError \<and>
     (\<exists>array'. generate_array guess check array = Inr array' \<and> array_ok array')"
proof -
  have "\<forall>j<5. 0 \<le> index_of_letter (word ! j) \<and> index_of_letter (word ! j) < 26"
    using w by (simp add: word_index word_row)
  moreover have "is_incorrect_position word array \<noteq> Inl IndexError"
    using a w by (simp add: is_incorrect_position_closed)
  moreover have "is_correct_position word array \<noteq> Inl IndexError"
    using a w by (simp add: is_correct_position_closed)
  moreover have "is_correct_letter_frequencies word array \<noteq> Inl IndexError"
    using a w by (rule is_correct_letter_frequencies_no_index_error)
  moreover have "valid_guess word array \<noteq> Inl IndexError"
    using a w by (rule valid_guess_no_index_error)
  moreover have "\<exists>array'. generate_array guess check array = Inr array' \<and> array_ok array'"
    using generate_array_cells [OF g c a] by blast
  ultimately show ?thesis by blast
qed

theorem indexing_in_bounds_witness:
  "word_ok ''belle'' \<and> word_ok ''eerie'' \<and> array_ok empty_array \<and> 5 \<le> length ''ygbbg'' \<and>
   index_of_letter (''belle'' ! 4) = 4 \<and>
   is_incorrect_position ''belle'' empty_array \<noteq> Inl IndexError \<and>
   is_correct_position ''belle'' empty_array \<noteq> Inl IndexError \<and>
   is_correct_letter_frequencies ''belle'' empty_array \<noteq> Inl IndexError \<and>
   valid_guess ''belle'' empty_array \<noteq> Inl IndexError \<and>
   (\<exists>array'. generate_array ''eerie'' ''ygbbg'' empty_array = Inr array' \<and> array_ok array')"
proof -
  have h1: "word_ok ''belle''" and h2: "word_ok ''eerie''"
    by (simp_all add: word_ok_def lowercase_def)
  have h4: "5 \<le> length ''ygbbg''" by simp
  have i: "index_of_letter (''belle'' ! 4) = 4" by (simp add: index_of_letter_def)
  from indexing_in_bounds [OF h1 h2 array_ok_empty h4]
  show ?thesis using h1 h2 h4 array_ok_empty i by simp
qed

section \<open>When the candidates shrink\<close>

lemma keeps_constraints_nth:
  "keeps_constraints guess check array \<Longrightarrow> j < 5 \<Longrightarrow>
     (array ! lidx (guess ! j) ! j = PStr ''g'' \<longrightarrow> check ! j = CHR ''g'') \<and>
     (array ! lidx (guess ! j) ! j = PStr ''b'' \<or> array ! lidx (guess ! j) ! j = PStr ''y''
        \<longrightarrow> check ! j = CHR ''b'' \<or> check ! j = CHR ''y'') \<and>
     count_kept (array ! lidx (guess ! j) ! 5) (array ! lidx (guess ! j) ! 6)
          (marked_count (guess ! j) guess check) (marked_black (guess ! j) guess check)"
  by (auto simp: keeps_constraints_def list_all_iff)

lemma count_kept_frequency:
  assumes k: "count_kept old_count old_flag count is_exact"
    and n: "frequency_ok (PInt count) (PBool is_exact) n"
  shows "frequency_ok old_count old_flag n"
proof (cases old_count)
  case (PInt c)
  then show ?thesis using k n by (auto simp: frequency_ok_def split: if_splits)
next
  case (PStr s)
  then show ?thesis using k by simp
next
  case (PBool b)
  then show ?thesis using k by simp
qed

lemma count_kept_presence:
  assumes k: "count_kept old_count old_flag count is_exact"
    and n: "presence_ok (PInt count) present"
  shows "presence_ok old_count present"
proof (cases old_count)
  case (PInt c)
  then show ?thesis using k n by (auto simp: presence_ok_def split: if_splits)
next
  case (PStr s)
  then show ?thesis using k by simp
next
  case (PBool b)
  then show ?thesis using k by simp
qed

lemma valid_guess_before_update:
  assumes g: "word_ok guess" and c: "5 \<le> length check" and a: "array_ok array"
    and keep: "keeps_constraints guess check array"
    and r: "generate_array guess check array = Inr array'"
    and w: "word_ok word" and v: "valid_guess word array' = Inr True"
  shows "valid_guess word array = Inr True"
proof -
  from generate_array_cells [OF g c a] r have ok': "array_ok array'" and
    c1: "\<And>k p. k < 26 \<Longrightarrow> p < 5 \<Longrightarrow> array' ! k ! p =
         (if lidx (guess ! p) = k then PStr [check ! p] else array ! k ! p)" and
    c5: "\<And>k. k < 26 \<Longrightarrow> array' ! k ! 5 =
         (if \<exists>j<5. lidx (guess ! j) = k
          then PInt (marked_count (row_letter k) guess check) else array ! k ! 5)" and
    c6: "\<And>k. k < 26 \<Longrightarrow> array' ! k ! 6 =
         (if \<exists>j<5. lidx (guess ! j) = k
          then PBool (marked_black (row_letter k) guess check) else array ! k ! 6)"
    by auto
  from v have
    v1: "\<And>j. j < 5 \<Longrightarrow> array' ! lidx (word ! j) ! j \<noteq> PStr ''b'' \<and> array' ! lidx (word ! j) ! j \<noteq> PStr ''y''" and
    v2: "\<And>j k. j < 5 \<Longrightarrow> k < 26 \<Longrightarrow> array' ! k ! j = PStr ''g'' \<Longrightarrow> lidx (word ! j) = k" and
    v3: "\<And>j. j < 5 \<Longrightarrow> frequency_ok (array' ! lidx (word ! j) ! 5) (array' ! lidx (word ! j) ! 6)
                     (int (count_list word (word ! j)))" and
    v4: "\<And>k. k < 26 \<Longrightarrow> presence_ok (array' ! k ! 5) (letter_in_word k word)"
    by (simp_all add: valid_guess_True [OF ok' w])
  have kept: "count_kept (array ! k ! 5) (array ! k ! 6)
          (marked_count (row_letter k) guess check) (marked_black (row_letter k) guess check)"
    if "j < 5" "lidx (guess ! j) = k" for j k
    using keeps_constraints_nth [OF keep that(1)] that
      row_letter_lidx [OF word_ok_nth [OF g that(1)]] by auto
  have a1: "array ! lidx (word ! j) ! j \<noteq> PStr ''b'' \<and> array ! lidx (word ! j) ! j \<noteq> PStr ''y''"
    if j: "j < 5" for j
  proof (cases "lidx (guess ! j) = lidx (word ! j)")
    case False
    then show ?thesis using c1 [OF word_row [OF w j] j] v1 [OF j] by simp
  next
    case True
    have "array' ! lidx (word ! j) ! j = PStr [check ! j]"
      using c1 [OF word_row [OF w j] j] True by simp
    then have "check ! j \<noteq> CHR ''b'' \<and> check ! j \<noteq> CHR ''y''" using v1 [OF j] by auto
    then show ?thesis using keeps_constraints_nth [OF keep j] True by auto
  qed
  have a2: "lidx (word ! j) = k" if j: "j < 5" and k: "k < 26" and gr: "array ! k ! j = PStr ''g''" for j k
  proof (cases "lidx (guess ! j) = k")
    case False
    then show ?thesis using c1 [OF k j] v2 [OF j k] gr by simp
  next
    case True
    have "check ! j = CHR ''g''" using keeps_constraints_nth [OF keep j] True gr by auto
    then have "array' ! k ! j = PStr ''g''" using c1 [OF k j] True by simp
    then show ?thesis using v2 [OF j k] by simp
  qed
  have a3: "frequency_ok (array ! lidx (word ! j) ! 5) (array ! lidx (word ! j) ! 6)
                     (int (count_list word (word ! j)))" if j: "j < 5" for j
  proof (cases "\<exists>j'<5. lidx (guess ! j') = lidx (word ! j)")
    case False
    have e5: "array' ! lidx (word ! j) ! 5 = array ! lidx (word ! j) ! 5"
      using c5 [OF word_row [OF w j]] False by (simp only: if_False)
    have e6: "array' ! lidx (word ! j) ! 6 = array ! lidx (word ! j) ! 6"
      using c6 [OF word_row [OF w j]] False by (simp only: if_False)
    show ?thesis using v3 [OF j] unfolding e5 e6 .
  next
    case True
    then obtain j' where j': "j' < 5" "lidx (guess ! j') = lidx (word ! j)" by blast
    have e5: "array' ! lidx (word ! j) ! 5 = PInt (marked_count (row_letter (lidx (word ! j))) guess check)"
      using c5 [OF word_row [OF w j]] True by (simp only: if_True)
    have e6: "array' ! lidx (word ! j) ! 6 = PBool (marked_black (row_letter (lidx (word ! j))) guess check)"
      using c6 [OF word_row [OF w j]] True by (simp only: if_True)
    show ?thesis
      using count_kept_frequency [OF kept [OF j']] v3 [OF j] unfolding e5 e6 .
  qed
  have a4: "presence_ok (array ! k ! 5) (letter_in_word k word)" if k: "k < 26" for k
  proof (cases "\<exists>j'<5. lidx (guess ! j') = k")
    case False
    have e5: "array' ! k ! 5 = array ! k ! 5" using c5 [OF k] False by (simp only: if_False)
    show ?thesis using v4 [OF k] unfolding e5 .
  next
    case True
    then obtain j' where j': "j' < 5" "lidx (guess ! j') = k" by blast
    have e5: "array' ! k ! 5 = PInt (marked_count (row_letter k) guess check)"
      using c5 [OF k] True by (simp only: if_True)
    show ?thesis using count_kept_presence [OF kept [OF j']] v4 [OF k] unfolding e5 .
  qed
  show ?thesis using a1 a2 a3 a4 by (simp add: valid_guess_True [OF a w])
qed

lemma length_filter_mono:
  "(\<And>x. x \<in> set xs \<Longrightarrow> P x \<Longrightarrow> Q x) \<Longrightarrow> length (filter P xs) \<le> length (filter Q xs)"
  by (induction xs) auto

theorem candidates_grow_counterexample:
  "compute_wordle_information ''eerie'' ''melee'' = Inr ''ygbbg'' \<and>
   compute_wordle_information ''those'' ''melee'' = Inr ''bbbbg'' \<and>
   valid_after [(''eerie'', ''ygbbg'')] ''belle'' = Inr False \<and>
   valid_after [(''eerie'', ''ygbbg''), (''those'', ''bbbbg'')] ''belle'' = Inr True"
  by code_simp

text \<open>
  C4, as the code has it: \<^verbatim>\<open>generate_array\<close> overwrites, so the candidates can grow
  (above, "belle" is excluded after "eerie" and accepted again after "those"). They do not
  grow when the update keeps what the array stores for the letters of the guess: then, for
  every dictionary of five-letter lowercase words, the words \<^verbatim>\<open>valid_guess\<close> accepts
  against the updated array are among those it accepted before, and their number is not
  larger.
\<close>

theorem candidates_never_grow:
  assumes g: "word_ok guess" and c: "5 \<le> length check" and a: "array_ok array"
    and keep: "keeps_constraints guess check array"
    and d: "list_all word_ok dictionary"
  shows "\<exists>array'. generate_array guess check array = Inr array' \<and>
     set (filter (\<lambda>w. valid_guess w array' = Inr True) dictionary)
       \<subseteq> set (filter (\<lambda>w. valid_guess w array = Inr True) dictionary) \<and>
     length (filter (\<lambda>w. valid_guess w array' = Inr True) dictionary)
       \<le> length (filter (\<lambda>w. valid_guess w array = Inr True) dictionary)"
proof -
  from generate_array_cells [OF g c a] obtain array' where
    r: "generate_array guess check array = Inr array'" by blast
  have step: "valid_guess w array = Inr True"
    if "w \<in> set dictionary" "valid_guess w array' = Inr True" for w
  proof -
    have "word_ok w" using d that(1) by (simp add: list_all_iff)
    with g c a keep r show ?thesis using that(2) by (rule valid_guess_before_update)
  qed
  have "set (filter (\<lambda>w. valid_guess w array' = Inr True) dictionary)
       \<subseteq> set (filter (\<lambda>w. valid_guess w array = Inr True) dictionary)"
    using step by auto
  moreover have "length (filter (\<lambda>w. valid_guess w array' = Inr True) dictionary)
       \<le> length (filter (\<lambda>w. valid_guess w array = Inr True) dictionary)"
    using step by (rule length_filter_mono)
  ultimately show ?thesis using r by blast
qed

theorem candidates_never_grow_witness:
  "\<exists>array. generate_array ''eerie'' ''ygbbg'' empty_array = Inr array \<and>
     word_ok ''eerie'' \<and> 5 \<le> length ''ygbbg'' \<and> array_ok array \<and>
     keeps_constraints ''eerie'' ''ygbbg'' array \<and>
     list_all word_ok [''melee'', ''belle''] \<and>
     (\<exists>array'. generate_array ''eerie'' ''ygbbg'' array = Inr array' \<and>
        set (filter (\<lambda>w. valid_guess w array' = Inr True) [''melee'', ''belle''])
          \<subseteq> set (filter (\<lambda>w. valid_guess w array = Inr True) [''melee'', ''belle'']) \<and>
        length (filter (\<lambda>w. valid_guess w array' = Inr True) [''melee'', ''belle''])
          \<le> length (filter (\<lambda>w. valid_guess w array = Inr True) [''melee'', ''belle'']))"
proof -
  have h1: "word_ok ''eerie''"
    by (simp add: word_ok_def lowercase_def)
  have h2: "5 \<le> length ''ygbbg''" by simp
  have h5: "list_all word_ok [''melee'', ''belle'']" by (simp add: word_ok_def lowercase_def)
  from generate_array_cells [OF h1 h2 array_ok_empty] obtain array where
    r: "generate_array ''eerie'' ''ygbbg'' empty_array = Inr array" and h3: "array_ok array"
    by blast
  have "rbind (generate_array ''eerie'' ''ygbbg'' empty_array)
          (\<lambda>array. Inr (keeps_constraints ''eerie'' ''ygbbg'' array)) = Inr True"
    by code_simp
  then have h4: "keeps_constraints ''eerie'' ''ygbbg'' array" by (simp add: r)
  from candidates_never_grow [OF h1 h2 h3 h4 h5] show ?thesis
    using r h1 h2 h3 h4 h5 by simp
qed

section \<open>The ranking\<close>

lemma count_list_insort_desc:
  "count_list (insort_desc key x xs) y = count_list (x # xs) y"
  by (induction xs) auto

lemma count_list_sorted_reverse:
  "count_list (sorted_reverse key xs) y = count_list xs y"
  by (induction xs) (simp_all add: count_list_insort_desc)

lemma set_insort_desc: "set (insort_desc key x xs) = insert x (set xs)"
  by (induction xs) auto

lemma length_insort_desc: "length (insort_desc key x xs) = Suc (length xs)"
  by (induction xs) auto

lemma length_sorted_reverse: "length (sorted_reverse key xs) = length xs"
  by (induction xs) (simp_all add: length_insort_desc)

lemma set_sorted_reverse: "set (sorted_reverse key xs) = set xs"
  by (induction xs) (simp_all add: set_insort_desc)

lemma descending_insort_desc:
  "sorted_wrt (\<lambda>a b. key b \<le> key a) xs \<Longrightarrow>
   sorted_wrt (\<lambda>a b. key b \<le> key a) (insort_desc key x xs)"
proof (induction xs)
  case Nil
  show ?case by simp
next
  case (Cons y ys)
  show ?case
  proof (cases "key y \<le> key x")
    case True
    then show ?thesis using Cons.prems by auto
  next
    case False
    then show ?thesis using Cons by (auto simp: set_insort_desc)
  qed
qed

lemma descending_sorted_reverse:
  "sorted_wrt (\<lambda>a b. key b \<le> key a) (sorted_reverse key xs)"
  by (induction xs) (simp_all add: descending_insort_desc)

lemma filter_insort_desc:
  "filter (\<lambda>y. key y = k) (insort_desc key x xs) =
     (if key x = k then x # filter (\<lambda>y. key y = k) xs else filter (\<lambda>y. key y = k) xs)"
  by (induction xs) auto

lemma stable_sorted_reverse:
  "filter (\<lambda>y. key y = k) (sorted_reverse key xs) = filter (\<lambda>y. key y = k) xs"
  by (induction xs) (simp_all add: filter_insort_desc)

lemma dict_incr_positive:
  "list_all (\<lambda>kc. 1 \<le> snd kc) d \<Longrightarrow> list_all (\<lambda>kc. 1 \<le> snd kc) (dict_incr d key)"
  by (induction d key rule: dict_incr.induct) auto

lemma dict_incr_sum: "sum_list (map snd (dict_incr d key)) = sum_list (map snd d) + 1"
  by (induction d key rule: dict_incr.induct) auto

lemma counts_sum_nonneg:
  "list_all (\<lambda>kc. 1 \<le> snd kc) d \<Longrightarrow> 0 \<le> sum_list (map snd d :: int list)"
  by (induction d) auto

lemma count_le_sum:
  "list_all (\<lambda>kc. 1 \<le> snd kc) d \<Longrightarrow> kc \<in> set d \<Longrightarrow>
   snd kc \<le> sum_list (map snd d :: int list)"
proof (induction d)
  case Nil
  then show ?case by simp
next
  case (Cons x d)
  have nonneg: "0 \<le> sum_list (map snd d)"
    using Cons.prems(1) by (simp add: counts_sum_nonneg)
  show ?case
  proof (cases "kc = x")
    case True
    then show ?thesis using nonneg by simp
  next
    case False
    then have "snd kc \<le> sum_list (map snd d)" using Cons by simp
    moreover have "1 \<le> snd x" using Cons.prems(1) by simp
    ultimately show ?thesis by simp
  qed
qed

lemma distribution_count_loop_ok:
  assumes g: "lower_word guess"
  shows "list_all (\<lambda>w. lower_word w \<and> length w = length guess) ws \<Longrightarrow>
         list_all (\<lambda>kc. 1 \<le> snd kc) d \<Longrightarrow>
    \<exists>d'. distribution_count_loop guess d ws = Inr d' \<and> list_all (\<lambda>kc. 1 \<le> snd kc) d' \<and>
         sum_list (map snd d') = sum_list (map snd d) + int (length ws)"
proof (induction ws arbitrary: d)
  case Nil
  then show ?case by simp
next
  case (Cons w ws)
  then have w: "lower_word w" "length guess = length w" by simp_all
  have i: "compute_wordle_information guess w =
      Inr (map (feedback_colour guess w) [0..<length guess])"
    using g w by (rule compute_wordle_information_closed)
  let ?d = "dict_incr d (map (feedback_colour guess w) [0..<length guess])"
  have rest: "list_all (\<lambda>w. lower_word w \<and> length w = length guess) ws"
    using Cons.prems(1) by simp
  have pos: "list_all (\<lambda>kc. 1 \<le> snd kc) ?d"
    using Cons.prems(2) by (rule dict_incr_positive)
  from Cons.IH [OF rest pos] obtain d' where
    r: "distribution_count_loop guess ?d ws = Inr d'" and p': "list_all (\<lambda>kc. 1 \<le> snd kc) d'"
    and t: "sum_list (map snd d') = sum_list (map snd ?d) + int (length ws)"
    by blast
  have "sum_list (map snd d') = sum_list (map snd d) + int (length (w # ws))"
    using t by (simp add: dict_incr_sum)
  then show ?case using r p' by (simp add: i)
qed

lemma distribution_divide_loop_ok:
  assumes a: "arith_ok arith N" and n: "0 < n" "n \<le> N"
  shows "list_all (\<lambda>kc. 1 \<le> snd kc \<and> snd kc \<le> int n) d \<Longrightarrow>
   \<exists>p. distribution_divide_loop arith d n = Inr p \<and>
       list_all (\<lambda>kv. 0 < snd kv \<and> 0 < float_recip arith (snd kv)) p"
proof (induction d)
  case Nil
  show ?case by simp
next
  case (Cons kc d)
  obtain k c where kc: "kc = (k, c)" by (cases kc)
  from Cons obtain p where p: "distribution_divide_loop arith d n = Inr p"
    "list_all (\<lambda>kv. 0 < snd kv \<and> 0 < float_recip arith (snd kv)) p" by auto
  have "1 \<le> c \<and> c \<le> int n \<and> int n \<le> int N" using Cons.prems kc n by simp
  then have "0 < float_div arith c (int n) \<and> 0 < float_recip arith (float_div arith c (int n))"
    using a unfolding arith_ok_def by blast
  then show ?case using n(1) p kc by simp
qed

lemma compute_entropy_loop_ok:
  "list_all (\<lambda>kv. 0 < snd kv \<and> 0 < float_recip arith (snd kv)) p \<Longrightarrow>
   \<exists>e. compute_entropy_loop arith p entropy = Inr e"
proof (induction p arbitrary: entropy)
  case Nil
  show ?case by simp
next
  case (Cons kv p)
  obtain k v where kv: "kv = (k, v)" by (cases kv)
  have v: "0 < v" "0 < float_recip arith v" using Cons.prems kv by simp_all
  then have "v \<noteq> 0" "\<not> float_recip arith v \<le> 0" by simp_all
  then show ?case using Cons kv by simp
qed

lemma compute_entropy_ok:
  assumes g: "word_ok guess" and ws: "list_all word_ok word_list"
    and a: "arith_ok arith N" and N: "length word_list \<le> N"
  shows "\<exists>e. compute_entropy arith guess word_list = Inr e"
proof -
  have l: "list_all (\<lambda>w. lower_word w \<and> length w = length guess) word_list"
    using ws g by (simp add: list_all_iff word_ok_lower word_ok_len)
  from distribution_count_loop_ok [OF word_ok_lower [OF g] l, of "[]"] obtain d where
    d: "distribution_count_loop guess [] word_list = Inr d" and
    pos: "list_all (\<lambda>kc. 1 \<le> snd kc) d" and
    total: "sum_list (map snd d) = int (length word_list)"
    by auto
  show ?thesis
  proof (cases word_list)
    case Nil
    then show ?thesis by (simp add: compute_entropy_def compute_probability_distribution_def)
  next
    case (Cons w ws')
    then have n: "0 < length word_list" by simp
    have "list_all (\<lambda>kc. 1 \<le> snd kc \<and> snd kc \<le> int (length word_list)) d"
      using pos count_le_sum [OF pos] total by (auto simp: list_all_iff)
    from distribution_divide_loop_ok [OF a n N this] obtain p where
      p: "distribution_divide_loop arith d (length word_list) = Inr p"
      "list_all (\<lambda>kv. 0 < snd kv \<and> 0 < float_recip arith (snd kv)) p"
      by blast
    from compute_entropy_loop_ok [OF p(2), of 0] show ?thesis
      by (simp add: compute_entropy_def compute_probability_distribution_def d p)
  qed
qed

lemma entropy_list_loop_ok:
  assumes ws: "list_all word_ok possible_guesses"
    and a: "arith_ok arith (length possible_guesses)"
  shows "list_all word_ok word_list \<Longrightarrow>
    \<exists>unsorted. entropy_list_loop arith word_list possible_guesses = Inr unsorted \<and>
       list_all2 (\<lambda>w entry. fst entry = w \<and>
                    compute_entropy arith w possible_guesses = Inr (snd entry))
         word_list unsorted"
proof (induction word_list)
  case Nil
  show ?case by simp
next
  case (Cons w word_list)
  then have w: "word_ok w" by simp
  from compute_entropy_ok [OF w ws a order_refl] obtain e where
    e: "compute_entropy arith w possible_guesses = Inr e"
    by blast
  from Cons obtain unsorted where
    "entropy_list_loop arith word_list possible_guesses = Inr unsorted"
    "list_all2 (\<lambda>w entry. fst entry = w \<and>
                    compute_entropy arith w possible_guesses = Inr (snd entry))
         word_list unsorted"
    by auto
  then show ?case by (simp add: e)
qed

lemma arith_ok_mono: "arith_ok arith N \<Longrightarrow> M \<le> N \<Longrightarrow> arith_ok arith M"
  unfolding arith_ok_def by (meson nat_int_comparison(3) order_trans)

lemma real_arith_ok: "arith_ok real_arith N"
  by (simp add: arith_ok_def real_arith_def)

text \<open>
  C8: for a pool and a list of answers of five-letter lowercase words (the answers may
  even be none), and for every arithmetic that keeps the probabilities and their
  reciprocals positive, \<^verbatim>\<open>generate_entropy_list\<close> returns a ranking of the list that
  pairs each word of the pool, in pool order, with its \<^verbatim>\<open>compute_entropy\<close>: the ranking
  has every entry of that list as often as the list has it, its entropies descend, and the
  entries of any one entropy keep the order they have in the pool. The entropies are those
  the given arithmetic computes, whatever they are.
\<close>

theorem ranking_sorted_stable:
  assumes "list_all word_ok word_list" and "list_all word_ok possible_guesses"
    and "arith_ok arith (length possible_guesses)"
  shows "\<exists>unsorted entropy_list.
     generate_entropy_list arith word_list possible_guesses = Inr entropy_list \<and>
     list_all2 (\<lambda>w entry. fst entry = w \<and>
                  compute_entropy arith w possible_guesses = Inr (snd entry))
       word_list unsorted \<and>
     length entropy_list = length word_list \<and>
     (\<forall>entry. count_list entropy_list entry = count_list unsorted entry) \<and>
     sorted_wrt (\<lambda>a b. snd b \<le> snd a) entropy_list \<and>
     (\<forall>e. filter (\<lambda>entry. snd entry = e) entropy_list = filter (\<lambda>entry. snd entry = e) unsorted)"
proof -
  from entropy_list_loop_ok [OF assms(2,3,1)] obtain unsorted where
    u: "entropy_list_loop arith word_list possible_guesses = Inr unsorted" and
    l: "list_all2 (\<lambda>w entry. fst entry = w \<and>
                     compute_entropy arith w possible_guesses = Inr (snd entry))
         word_list unsorted"
    by blast
  have "generate_entropy_list arith word_list possible_guesses = Inr (sorted_reverse snd unsorted)"
    by (simp add: generate_entropy_list_def u)
  moreover have "length (sorted_reverse snd unsorted) = length word_list"
    using l by (simp add: length_sorted_reverse list_all2_lengthD)
  ultimately show ?thesis
    using l count_list_sorted_reverse [of snd unsorted]
      descending_sorted_reverse [of snd unsorted] stable_sorted_reverse [of snd _ unsorted]
    by blast
qed

theorem ranking_sorted_stable_witness:
  "list_all word_ok [''those'', ''eerie''] \<and> list_all word_ok [''melee'', ''belle''] \<and>
   arith_ok real_arith (length [''melee'', ''belle'']) \<and>
   (\<exists>unsorted entropy_list.
     generate_entropy_list real_arith [''those'', ''eerie''] [''melee'', ''belle'']
       = Inr entropy_list \<and>
     list_all2 (\<lambda>w entry. fst entry = w \<and>
                  compute_entropy real_arith w [''melee'', ''belle''] = Inr (snd entry))
       [''those'', ''eerie''] unsorted \<and>
     length entropy_list = length [''those'', ''eerie''] \<and>
     (\<forall>entry. count_list entropy_list entry = count_list unsorted entry) \<and>
     sorted_wrt (\<lambda>a b. snd b \<le> snd a) entropy_list \<and>
     (\<forall>e. filter (\<lambda>entry. snd entry = e) entropy_list = filter (\<lambda>entry. snd entry = e) unsorted))"
proof -
  have h1: "list_all word_ok [''those'', ''eerie'']" by (simp add: word_ok_def lowercase_def)
  have h2: "list_all word_ok [''melee'', ''belle'']" by (simp add: word_ok_def lowercase_def)
  have h3: "arith_ok real_arith (length [''melee'', ''belle''])" by (rule real_arith_ok)
  from ranking_sorted_stable [OF h1 h2 h3] show ?thesis using h1 h2 h3 by blast
qed

section \<open>The result of self-play\<close>

declare play_loop.simps [simp del]

lemma play_loop_unfold:
  "play_loop arith lines answer guess_array guess_suggestion loop_count =
     rbind (compute_wordle_information guess_suggestion answer) (\<lambda>check.
       if check = ''ggggg'' then Inr (loop_count + 1)
       else rbind (next_turn arith lines guess_array guess_suggestion check) (\<lambda>state.
         if 6 \<le> loop_count + 1 then Inr (loop_count + 1 + 1)
         else play_loop arith lines answer (fst state) (snd state) (loop_count + 1)))"
  by (subst play_loop.simps) (simp add: next_turn_def rbind_def split: sum.splits)

lemma play_loop_result:
  "turn_state arith lines answer lc = Inr (ga, gs) \<Longrightarrow> lc < 6 \<Longrightarrow>
   play_loop arith lines answer ga gs lc = Inr n \<Longrightarrow>
   lc < n \<and> n \<le> 7 \<and>
   (\<forall>t. lc \<le> t \<and> t < n - 1 \<longrightarrow> (\<exists>c. feedback_at arith lines answer t = Inr c \<and> c \<noteq> ''ggggg'')) \<and>
   (n \<le> 6 \<longrightarrow> feedback_at arith lines answer (n - 1) = Inr ''ggggg'')"
proof (induction "5 - lc" arbitrary: lc ga gs)
  case 0
  then have lc: "lc = 5" by simp
  from "0.prems"(3) obtain check where
    c: "compute_wordle_information gs answer = Inr check"
    by (subst (asm) play_loop_unfold) (auto simp: rbind_eq_Inr_iff)
  have f: "feedback_at arith lines answer lc = Inr check"
    using "0.prems"(1) c by (simp add: feedback_at_def)
  show ?case
  proof (cases "check = ''ggggg''")
    case True
    then have "n = lc + 1"
      using "0.prems"(3) c by (subst (asm) play_loop_unfold) simp
    then show ?thesis using f True lc by auto
  next
    case False
    then have "n = 7"
      using "0.prems"(3) c lc by (subst (asm) play_loop_unfold) (auto simp: rbind_eq_Inr_iff)
    moreover have "\<exists>c. feedback_at arith lines answer t = Inr c \<and> c \<noteq> ''ggggg''"
      if "lc \<le> t \<and> t < 7 - 1" for t
    proof -
      have "t = lc" using that lc by simp
      then show ?thesis using f False by simp
    qed
    ultimately show ?thesis using lc by simp
  qed
next
  case (Suc k)
  then have lc: "lc < 5" by simp
  from Suc.prems(3) obtain check where
    c: "compute_wordle_information gs answer = Inr check"
    by (subst (asm) play_loop_unfold) (auto simp: rbind_eq_Inr_iff)
  have f: "feedback_at arith lines answer lc = Inr check"
    using Suc.prems(1) c by (simp add: feedback_at_def)
  show ?case
  proof (cases "check = ''ggggg''")
    case True
    then have "n = lc + 1"
      using Suc.prems(3) c by (subst (asm) play_loop_unfold) simp
    then show ?thesis using f True lc by auto
  next
    case False
    from Suc.prems(3) c False lc obtain state where
      s: "next_turn arith lines ga gs check = Inr state" and
      p: "play_loop arith lines answer (fst state) (snd state) (lc + 1) = Inr n"
      by (subst (asm) play_loop_unfold) (auto simp: rbind_eq_Inr_iff)
    have t: "turn_state arith lines answer (lc + 1) = Inr (fst state, snd state)"
      using Suc.prems(1) c s by simp
    have k: "k = 5 - (lc + 1)" using Suc.hyps(2) by simp
    have l: "lc + 1 < 6" using lc by simp
    from Suc.hyps(1) [OF k t l p] have
      n: "lc + 1 < n" "n \<le> 7" and
      later: "\<And>t. lc + 1 \<le> t \<and> t < n - 1 \<Longrightarrow> \<exists>c. feedback_at arith lines answer t = Inr c \<and> c \<noteq> ''ggggg''" and
      win: "n \<le> 6 \<longrightarrow> feedback_at arith lines answer (n - 1) = Inr ''ggggg''"
      by blast+
    have "\<exists>c. feedback_at arith lines answer t = Inr c \<and> c \<noteq> ''ggggg''"
      if "lc \<le> t \<and> t < n - 1" for t
    proof (cases "t = lc")
      case True
      then show ?thesis using f False by simp
    next
      case nt: False
      then have "lc + 1 \<le> t \<and> t < n - 1" using that by simp
      then show ?thesis by (rule later)
    qed
    then show ?thesis using n win by simp
  qed
qed

lemma letter_frequencies_loop1_no_error:
  "array_ok array \<Longrightarrow> word_ok word \<Longrightarrow> \<forall>k<26. \<exists>c. array ! k ! 5 = PInt c \<Longrightarrow>
   \<forall>j\<in>set js. j < 5 \<Longrightarrow> letter_frequencies_loop1 word array js \<noteq> Inl e"
proof (induction js)
  case Nil
  show ?case by simp
next
  case (Cons j js)
  then have j: "j < 5" by simp
  have k: "lidx (word ! j) < 26" using Cons.prems(2) j by (rule word_row)
  have g: "cell_get array (int (lidx (word ! j))) (-2) = Inr (array ! lidx (word ! j) ! 5)"
    "cell_get array (int (lidx (word ! j))) (-1) = Inr (array ! lidx (word ! j) ! 6)"
    using Cons.prems(1) k by (simp_all add: cell_get_ok2 cell_get_ok1)
  from Cons.prems(3) k obtain c where c: "array ! lidx (word ! j) ! 5 = PInt c" by blast
  show ?case using Cons j by (auto simp: word_index g c Let_def)
qed

lemma letter_frequencies_loop2_no_error:
  "array_ok array \<Longrightarrow> \<forall>k<26. \<exists>c. array ! k ! 5 = PInt c \<Longrightarrow>
   \<forall>k\<in>set ks. k < 26 \<Longrightarrow> letter_frequencies_loop2 word array ks \<noteq> Inl e"
proof (induction ks)
  case Nil
  show ?case by simp
next
  case (Cons k ks)
  then have k: "k < 26" by simp
  have g: "cell_get array (int k) (-2) = Inr (array ! k ! 5)"
    using Cons.prems(1) k by (simp add: cell_get_ok2)
  from Cons.prems(2) k obtain c where c: "array ! k ! 5 = PInt c" by blast
  show ?case using Cons k by (auto simp: g c)
qed

lemma valid_guess_returns:
  assumes a: "array_ok array" and w: "word_ok word" and t: "\<forall>k<26. \<exists>c. array ! k ! 5 = PInt c"
  shows "\<exists>b. valid_guess word array = Inr b"
proof -
  have "\<forall>j\<in>set [0..<length word]. j < 5" using w by (simp add: word_ok_len)
  from letter_frequencies_loop1_no_error [OF a w t this]
  have b1: "letter_frequencies_loop1 word array [0..<length word] \<noteq> Inl e" for e .
  have "\<forall>k\<in>set [0..<length array]. k < 26" using a by (simp add: array_ok_len)
  from letter_frequencies_loop2_no_error [OF a t this]
  have b2: "letter_frequencies_loop2 word array [0..<length array] \<noteq> Inl e" for e .
  have "valid_guess word array \<noteq> Inl e" for e
    using b1 [of e] b2 [of e]
    by (cases "letter_frequencies_loop1 word array [0..<length word]")
       (auto simp: valid_guess_def is_incorrect_position_closed [OF a w]
        is_correct_position_closed [OF a w] is_correct_letter_frequencies_def)
  then show ?thesis by (cases "valid_guess word array") auto
qed

lemma possible_guesses_loop_returns:
  assumes a: "array_ok array" and t: "\<forall>k<26. \<exists>c. array ! k ! 5 = PInt c"
  shows "list_all word_ok ws \<Longrightarrow>
    \<exists>pg. possible_guesses_loop ws array = Inr pg \<and> set pg \<subseteq> set ws \<and>
       length pg \<le> length ws"
proof (induction ws)
  case Nil
  show ?case by simp
next
  case (Cons w ws)
  then have w: "word_ok w" by simp
  from valid_guess_returns [OF a w t] obtain b where b: "valid_guess w array = Inr b" by blast
  from Cons obtain pg where "possible_guesses_loop ws array = Inr pg" "set pg \<subseteq> set ws"
    "length pg \<le> length ws" by auto
  then show ?case by (auto simp: b)
qed

lemma generate_entropy_list_returns:
  assumes l: "list_all word_ok lines" and p: "list_all word_ok possible_guesses"
    and a: "arith_ok arith (length possible_guesses)"
  shows "\<exists>entropy_list. generate_entropy_list arith lines possible_guesses = Inr entropy_list \<and>
     length entropy_list = length lines \<and> fst ` set entropy_list \<subseteq> set lines"
proof -
  from entropy_list_loop_ok [OF p a l] obtain unsorted where
    u: "entropy_list_loop arith lines possible_guesses = Inr unsorted" and
    l2: "list_all2 (\<lambda>w entry. fst entry = w \<and>
                      compute_entropy arith w possible_guesses = Inr (snd entry))
         lines unsorted"
    by blast
  have len: "length unsorted = length lines" using l2 by (simp add: list_all2_lengthD)
  have "fst entry \<in> set lines" if "entry \<in> set unsorted" for entry
  proof -
    from that obtain i where i: "i < length unsorted" "unsorted ! i = entry"
      by (auto simp: in_set_conv_nth)
    then have "fst entry = lines ! i" using l2 by (auto simp: list_all2_conv_all_nth)
    then show ?thesis using i len by simp
  qed
  then have "fst ` set (sorted_reverse snd unsorted) \<subseteq> set lines"
    by (auto simp: set_sorted_reverse)
  then show ?thesis
    using len by (simp add: generate_entropy_list_def u length_sorted_reverse)
qed

lemma tie_break_word_cases:
  "tie_break_word entropy_list guess s = guess \<or> tie_break_word entropy_list guess s = s"
proof -
  have "foldl (\<lambda>s entry. if fst entry = guess \<and> top = snd entry then guess else s) s es = guess \<or>
        foldl (\<lambda>s entry. if fst entry = guess \<and> top = snd entry then guess else s) s es = s"
    for top :: 'a and es :: "(string \<times> 'a) list"
  proof (induction es arbitrary: s)
    case Nil
    show ?case by simp
  next
    case (Cons e es)
    show ?case using Cons [of s] Cons [of guess] by auto
  qed
  then show ?thesis by (simp add: tie_break_word_def)
qed

lemma tie_break_cases:
  "tie_break entropy_list possible_guesses s \<in> insert s (set possible_guesses)"
proof -
  have "foldl (\<lambda>s guess. tie_break_word entropy_list guess s) s pg \<in> insert s (set pg)" for pg
  proof (induction pg arbitrary: s)
    case Nil
    show ?case by simp
  next
    case (Cons g pg)
    show ?case
      using Cons [of "tie_break_word entropy_list g s"] tie_break_word_cases [of entropy_list g s]
      by auto
  qed
  then show ?thesis by (simp add: tie_break_def)
qed

lemma next_turn_returns:
  assumes n: "lines \<noteq> []" and l: "list_all word_ok lines"
    and ar: "arith_ok arith (length lines)"
    and a: "array_ok ga" and t: "\<forall>k<26. \<exists>c. ga ! k ! 5 = PInt c"
    and g: "word_ok gs" and c: "5 \<le> length check"
  shows "\<exists>ga' gs'. next_turn arith lines ga gs check = Inr (ga', gs') \<and>
           array_ok ga' \<and> (\<forall>k<26. \<exists>c. ga' ! k ! 5 = PInt c) \<and> word_ok gs'"
proof -
  from generate_array_cells [OF g c a] obtain ga' where
    r: "generate_array gs check ga = Inr ga'" and ok': "array_ok ga'" and
    c5: "\<And>k. k < 26 \<Longrightarrow> ga' ! k ! 5 =
         (if \<exists>j<5. lidx (gs ! j) = k
          then PInt (marked_count (row_letter k) gs check) else ga ! k ! 5)"
    by blast
  have t': "\<forall>k<26. \<exists>c. ga' ! k ! 5 = PInt c"
  proof (intro allI impI)
    fix k :: nat assume k: "k < 26"
    show "\<exists>c. ga' ! k ! 5 = PInt c"
    proof (cases "\<exists>j<5. lidx (gs ! j) = k")
      case True
      then show ?thesis using c5 [OF k] by (simp only: if_True) blast
    next
      case False
      then have "ga' ! k ! 5 = ga ! k ! 5" using c5 [OF k] by (simp only: if_False)
      then show ?thesis using t k by simp
    qed
  qed
  from possible_guesses_loop_returns [OF ok' t' l] obtain pg where
    pg: "possible_guesses_loop lines ga' = Inr pg" and sub: "set pg \<subseteq> set lines"
    and shorter: "length pg \<le> length lines" by blast
  have pgok: "list_all word_ok pg" using sub l by (auto simp: list_all_iff)
  have arpg: "arith_ok arith (length pg)" using ar shorter by (rule arith_ok_mono)
  from generate_entropy_list_returns [OF l pgok arpg] obtain el where
    el: "generate_entropy_list arith lines pg = Inr el" and len: "length el = length lines"
    and fs: "fst ` set el \<subseteq> set lines" by blast
  have ne: "0 < length el" using n len by simp
  then have top: "py_get el 0 = Inr (el ! 0)" using py_get_nat [of 0 el] by simp
  have "fst (el ! 0) \<in> set lines" using fs ne by (auto simp: image_subset_iff)
  moreover have "tie_break el pg (fst (el ! 0)) \<in> insert (fst (el ! 0)) (set pg)"
    by (rule tie_break_cases)
  ultimately have "tie_break el pg (fst (el ! 0)) \<in> set lines" using sub by auto
  then have "word_ok (tie_break el pg (fst (el ! 0)))" using l by (simp add: list_all_iff)
  then show ?thesis using ok' t' by (simp add: next_turn_def r pg el top)
qed

lemma play_loop_returns:
  assumes n: "lines \<noteq> []" and l: "list_all word_ok lines" and w: "word_ok answer"
    and ar: "arith_ok arith (length lines)"
  shows "array_ok ga \<Longrightarrow> \<forall>k<26. \<exists>c. ga ! k ! 5 = PInt c \<Longrightarrow> word_ok gs \<Longrightarrow> lc < 6 \<Longrightarrow>
         \<exists>n. play_loop arith lines answer ga gs lc = Inr n"
proof (induction "5 - lc" arbitrary: lc ga gs)
  case 0
  then have lc: "lc = 5" by simp
  let ?check = "map (feedback_colour gs answer) [0..<length gs]"
  have len: "length gs = length answer" using w "0.prems"(3) by (simp add: word_ok_len)
  have c: "compute_wordle_information gs answer = Inr ?check"
    using word_ok_lower [OF "0.prems"(3)] word_ok_lower [OF w] len
    by (rule compute_wordle_information_closed)
  have c5: "5 \<le> length ?check" using "0.prems"(3) by (simp add: word_ok_len)
  from next_turn_returns [OF n l ar "0.prems"(1,2,3) c5] obtain ga' gs' where
    s: "next_turn arith lines ga gs ?check = Inr (ga', gs')" by blast
  show ?case by (subst play_loop_unfold) (simp add: c s lc)
next
  case (Suc k)
  then have lc: "lc < 5" by simp
  let ?check = "map (feedback_colour gs answer) [0..<length gs]"
  have len: "length gs = length answer" using w Suc.prems(3) by (simp add: word_ok_len)
  have c: "compute_wordle_information gs answer = Inr ?check"
    using word_ok_lower [OF Suc.prems(3)] word_ok_lower [OF w] len
    by (rule compute_wordle_information_closed)
  have c5: "5 \<le> length ?check" using Suc.prems(3) by (simp add: word_ok_len)
  from next_turn_returns [OF n l ar Suc.prems(1,2,3) c5] obtain ga' gs' where
    s: "next_turn arith lines ga gs ?check = Inr (ga', gs')" and ok': "array_ok ga'" and
    t': "\<forall>k<26. \<exists>c. ga' ! k ! 5 = PInt c" and g': "word_ok gs'" by blast
  have k: "k = 5 - (lc + 1)" using Suc.hyps(2) by simp
  have l6: "lc + 1 < 6" using lc by simp
  from Suc.hyps(1) [OF k ok' t' g' l6] obtain m where
    "play_loop arith lines answer ga' gs' (lc + 1) = Inr m" by blast
  then show ?case using lc by (subst play_loop_unfold) (simp add: c s)
qed

text \<open>
  C9: on a non-empty list of five-letter lowercase lines and such an answer, and for every
  arithmetic that keeps the probabilities and their reciprocals positive,
  \<^verbatim>\<open>computer_play_wordle\<close> returns a number \<open>n\<close> from 1 to 7. The feedback of every
  turn before turn \<open>n\<close> is not all green. If \<open>n\<close> is at most 6, the feedback of the guess
  of turn \<open>n\<close> is "ggggg": the function returned the current turn number. Otherwise
  \<open>n\<close> is 7, that is \<^verbatim>\<open>loop_count + 1\<close> at turn 6: the counter reached the budget of 6
  and none of the six guesses was all green.
\<close>

theorem self_play_turn_count:
  assumes "lines \<noteq> []" and "list_all word_ok lines" and "word_ok answer"
    and "arith_ok arith (length lines)"
  shows "\<exists>n. computer_play_wordle arith lines answer = Inr n \<and> 1 \<le> n \<and> n \<le> 7 \<and>
     (\<forall>t. t < n - 1 \<longrightarrow> (\<exists>c. feedback_at arith lines answer t = Inr c \<and> c \<noteq> ''ggggg'')) \<and>
     (n \<le> 6 \<longrightarrow> feedback_at arith lines answer (n - 1) = Inr ''ggggg'')"
proof -
  have t: "\<forall>k<26. \<exists>c. empty_array ! k ! 5 = PInt c" by (simp add: empty_array_cell)
  have g: "word_ok ''tares''" by (simp add: word_ok_def lowercase_def)
  have z: "(0::nat) < 6" by simp
  from play_loop_returns [OF assms array_ok_empty t g z] obtain n where
    n: "play_loop arith lines answer empty_array ''tares'' 0 = Inr n" by blast
  have s: "turn_state arith lines answer 0 = Inr (empty_array, ''tares'')" by simp
  from play_loop_result [OF s z n] show ?thesis
    using n by (auto simp: computer_play_wordle_def)
qed

theorem self_play_turn_count_witness:
  "[''those'', ''melee'', ''tares''] \<noteq> [] \<and> list_all word_ok [''those'', ''melee'', ''tares''] \<and>
   word_ok ''melee'' \<and> arith_ok real_arith (length [''those'', ''melee'', ''tares'']) \<and>
   (\<exists>n. computer_play_wordle real_arith [''those'', ''melee'', ''tares''] ''melee'' = Inr n \<and> 1 \<le> n \<and> n \<le> 7 \<and>
     (\<forall>t. t < n - 1 \<longrightarrow>
        (\<exists>c. feedback_at real_arith [''those'', ''melee'', ''tares''] ''melee'' t = Inr c \<and> c \<noteq> ''ggggg'')) \<and>
     (n \<le> 6 \<longrightarrow> feedback_at real_arith [''those'', ''melee'', ''tares''] ''melee'' (n - 1) = Inr ''ggggg''))"
proof -
  have h1: "[''those'', ''melee'', ''tares''] \<noteq> []" by simp
  have h2: "list_all word_ok [''those'', ''melee'', ''tares'']"
    by (simp add: word_ok_def lowercase_def)
  have h3: "word_ok ''melee''" by (simp add: word_ok_def lowercase_def)
  have h4: "arith_ok real_arith (length [''those'', ''melee'', ''tares''])"
    by (rule real_arith_ok)
  from self_play_turn_count [OF h1 h2 h3 h4] show ?thesis using h2 h3 h4 by blast
qed

section \<open>Feedback for one word\<close>

theorem speed_erase_counterexample:
  "compute_wordle_information ''speed'' ''erase'' \<noteq> Inr ''bbybb''"
  by code_simp

text \<open>
  C5, as the code has it: the answer "erase" contains an s and two e, so for the guess
  "speed" the s and both e are yellow and only p and d are black; the function returns
  "ybyyb", not "bbybb".
\<close>

theorem speed_erase_feedback:
  "compute_wordle_information ''speed'' ''erase'' = Inr ''ybyyb''"
  by code_simp

section \<open>Entropy over no answers\<close>

lemma entropy_list_loop_empty:
  "(\<And>w. compute_entropy arith w pg = Inr 0) \<Longrightarrow>
   entropy_list_loop arith word_list pg = Inr (map (\<lambda>w. (w, 0)) word_list)"
  by (induction word_list) simp_all

lemma sorted_reverse_constant_key:
  "sorted_reverse snd (map (\<lambda>w. (w, c)) ws) = map (\<lambda>w. (w, c)) ws"
proof (induction ws)
  case Nil
  show ?case by simp
next
  case (Cons w ws)
  show ?case
  proof (cases ws)
    case Nil
    then show ?thesis by simp
  next
    case (Cons v vs)
    with Cons.IH show ?thesis by simp
  qed
qed

theorem no_candidates_counterexample:
  "compute_probability_distribution real_arith ''tares'' [] = Inr [] \<and>
   compute_entropy real_arith ''tares'' [] = Inr 0"
  by (simp add: compute_entropy_def compute_probability_distribution_def)

text \<open>
  C6, as the code has it: over an empty list of possible answers nothing raises, whatever
  the arithmetic, since no arithmetic is done. The dictionary of colour sequences is
  empty, the entropy is the initial 0, and the ranking pairs every word of the pool with
  entropy 0, in the pool's order.
\<close>

theorem no_candidates_entropy_zero:
  "compute_probability_distribution arith guess [] = Inr [] \<and>
   compute_entropy arith guess [] = Inr 0 \<and>
   generate_entropy_list arith word_list [] = Inr (map (\<lambda>w. (w, 0)) word_list)"
proof -
  have d: "compute_probability_distribution arith g [] = Inr []" for g
    by (simp add: compute_probability_distribution_def)
  have e: "compute_entropy arith g [] = Inr 0" for g
    by (simp add: compute_entropy_def d)
  have "entropy_list_loop arith word_list [] = Inr (map (\<lambda>w. (w, 0)) word_list)"
    by (rule entropy_list_loop_empty) (rule e)
  then have "generate_entropy_list arith word_list [] = Inr (map (\<lambda>w. (w, 0)) word_list)"
    by (simp add: generate_entropy_list_def sorted_reverse_constant_key)
  with d e show ?thesis by simp
qed

end
